theory Spec2Isabelle
  imports Complex_Main "HOL-Library.Stream" "HOL-Library.Sublist" "HOL-Library.Word"
begin

section \<open>Strings of the Python runtime\<close>

text \<open>
  A Python \<open>str\<close> is a sequence of code points. It is modelled as a \<open>string\<close>
  (a \<open>char list\<close>), each \<open>char\<close> read as one code point in the range
  U+0000 .. U+00FF, so the model covers every chat text written in Latin-1. The
  character classes below are those of CPython on that range.
\<close>

definition whitespace_chars :: string where
  \<comment> \<open>\<open>str.isspace\<close>, which \<open>str.strip\<close> and the pattern class \<open>\s\<close> both use.\<close>
  "whitespace_chars =
     [CHR 0x09, CHR 0x0A, CHR 0x0B, CHR 0x0C, CHR 0x0D,
      CHR 0x1C, CHR 0x1D, CHR 0x1E, CHR 0x1F, CHR 0x20, CHR 0x85, CHR 0xA0]"

definition isspace :: "char \<Rightarrow> bool" where
  "isspace c = (c \<in> set whitespace_chars)"

definition linebreak_chars :: string where
  \<comment> \<open>The line boundaries of \<open>str.splitlines\<close>.\<close>
  "linebreak_chars =
     [CHR 0x0A, CHR 0x0B, CHR 0x0C, CHR 0x0D, CHR 0x1C, CHR 0x1D, CHR 0x1E, CHR 0x85]"

definition islinebreak :: "char \<Rightarrow> bool" where
  "islinebreak c = (c \<in> set linebreak_chars)"

definition word_chars :: string where
  \<comment> \<open>The pattern class \<open>[A-Za-z0-9_]\<close>.\<close>
  "word_chars = ''ABCDEFGHIJKLMNOPQRSTUVWXYZabcdefghijklmnopqrstuvwxyz0123456789_''"

definition isword :: "char \<Rightarrow> bool" where
  "isword c = (c \<in> set word_chars)"

definition upper_chars :: string where
  "upper_chars = ''ABCDEFGHIJKLMNOPQRSTUVWXYZ'' @
     [CHR 0xC0, CHR 0xC1, CHR 0xC2, CHR 0xC3, CHR 0xC4, CHR 0xC5, CHR 0xC6, CHR 0xC7,
      CHR 0xC8, CHR 0xC9, CHR 0xCA, CHR 0xCB, CHR 0xCC, CHR 0xCD, CHR 0xCE, CHR 0xCF,
      CHR 0xD0, CHR 0xD1, CHR 0xD2, CHR 0xD3, CHR 0xD4, CHR 0xD5, CHR 0xD6,
      CHR 0xD8, CHR 0xD9, CHR 0xDA, CHR 0xDB, CHR 0xDC, CHR 0xDD, CHR 0xDE]"

definition lower_chars :: string where
  "lower_chars = ''abcdefghijklmnopqrstuvwxyz'' @
     [CHR 0xE0, CHR 0xE1, CHR 0xE2, CHR 0xE3, CHR 0xE4, CHR 0xE5, CHR 0xE6, CHR 0xE7,
      CHR 0xE8, CHR 0xE9, CHR 0xEA, CHR 0xEB, CHR 0xEC, CHR 0xED, CHR 0xEE, CHR 0xEF,
      CHR 0xF0, CHR 0xF1, CHR 0xF2, CHR 0xF3, CHR 0xF4, CHR 0xF5, CHR 0xF6,
      CHR 0xF8, CHR 0xF9, CHR 0xFA, CHR 0xFB, CHR 0xFC, CHR 0xFD, CHR 0xFE]"

definition lower_char :: "char \<Rightarrow> char" where
  "lower_char c = (case map_of (zip upper_chars lower_chars) c of Some d \<Rightarrow> d | None \<Rightarrow> c)"

definition str_lower :: "string \<Rightarrow> string" where
  \<comment> \<open>\<open>s.lower()\<close>\<close>
  "str_lower s = map lower_char s"

definition str_strip :: "string \<Rightarrow> string" where
  \<comment> \<open>\<open>s.strip()\<close>: whitespace removed at both ends.\<close>
  "str_strip s = rev (dropWhile isspace (rev (dropWhile isspace s)))"

text \<open>
  \<open>s.splitlines()\<close>: the text is cut at every line boundary, \<open>\r\n\<close> counting as
  one; the boundaries are not kept, and a boundary at the very end opens no further
  (empty) line. \<open>cur\<close> is the line read so far.
\<close>

fun splitlines_from :: "string \<Rightarrow> string \<Rightarrow> string list" where
  "splitlines_from cur [] = (if cur = [] then [] else [cur])"
| "splitlines_from cur [c] = (if islinebreak c then [cur] else [cur @ [c]])"
| "splitlines_from cur (c # d # cs) =
     (if islinebreak c then
        (if c = CHR 0x0D \<and> d = CHR 0x0A then cur # splitlines_from [] cs
         else cur # splitlines_from [] (d # cs))
      else splitlines_from (cur @ [c]) (d # cs))"

definition splitlines :: "string \<Rightarrow> string list" where
  "splitlines s = splitlines_from [] s"

text \<open>
  \<open>re.sub(r"\s+", " ", s)\<close>: every maximal run of whitespace becomes one space.
\<close>

function re_sub_spaces :: "string \<Rightarrow> string" where
  "re_sub_spaces [] = []"
| "re_sub_spaces (c # cs) =
     (if isspace c then CHR '' '' # re_sub_spaces (dropWhile isspace cs)
      else c # re_sub_spaces cs)"
  by pat_completeness auto
termination
  by (relation "measure length") (auto simp: length_dropWhile_le le_imp_less_Suc)

definition norm_text :: "string \<Rightarrow> string" where
  \<comment> \<open>\<open>_norm\<close>: \<open>re.sub(r"\s+", " ", text.strip().lower())\<close>\<close>
  "norm_text s = re_sub_spaces (str_lower (str_strip s))"

section \<open>The segmenter\<close>

text \<open>
  A message is the dictionary \<open>{"speaker": ..., "text": ...}\<close>. The analyzer reads it
  with \<open>msg.get(key, default)\<close>, so a dictionary is a map and a missing key is
  \<open>None\<close>.
\<close>

type_synonym message = "string \<rightharpoonup> string"

definition Message :: "string \<Rightarrow> string \<Rightarrow> message" where
  "Message sp tx = [''speaker'' \<mapsto> sp, ''text'' \<mapsto> tx]"

definition dict_get :: "message \<Rightarrow> string \<Rightarrow> string \<Rightarrow> string" where
  "dict_get m k dflt = (case m k of Some v \<Rightarrow> v | None \<Rightarrow> dflt)"

text \<open>
  The speaker pattern \<open>^\s*([A-Za-z0-9_]+)\s*:\s*(.+)$\<close>, matched at the start of the
  line. Its first three parts leave the matcher no choice: a shorter run of whitespace
  or of word characters is followed by a character the next part refuses. After the
  colon the matcher backtracks: \<open>\s*\<close> first takes the whole run of whitespace and
  gives characters back one at a time until \<open>(.+)$\<close> matches what is left.
  \<open>.\<close> is any character but the newline, and \<open>$\<close> holds at the end of the line
  or before a newline that ends it.
\<close>

definition dot_plus_end :: "string \<Rightarrow> string option" where
  \<comment> \<open>\<open>(.+)$\<close> on the rest of the line: the group, when it matches.\<close>
  "dot_plus_end r =
     (let body = takeWhile (\<lambda>c. c \<noteq> CHR 0x0A) r;
          after = dropWhile (\<lambda>c. c \<noteq> CHR 0x0A) r
      in if body \<noteq> [] \<and> (after = [] \<or> after = [CHR 0x0A]) then Some body else None)"

fun spaces_then_text :: "nat \<Rightarrow> string \<Rightarrow> string option" where
  \<comment> \<open>\<open>\s*(.+)$\<close> with at most \<open>j\<close> characters for \<open>\s*\<close>, the longest run first.\<close>
  "spaces_then_text 0 rest = dot_plus_end rest"
| "spaces_then_text (Suc j) rest =
     (case dot_plus_end (drop (Suc j) rest) of
        Some t \<Rightarrow> Some t
      | None \<Rightarrow> spaces_then_text j rest)"

definition speaker_pattern_match :: "string \<Rightarrow> (string \<times> string) option" where
  \<comment> \<open>\<open>speaker_pattern.match(line)\<close>: the groups 1 and 2, when the line matches.\<close>
  "speaker_pattern_match s =
     (let s1 = dropWhile isspace s;
          tok = takeWhile isword s1;
          s2 = dropWhile isspace (dropWhile isword s1)
      in if tok = [] then None
         else (case s2 of
                 [] \<Rightarrow> None
               | c # rest \<Rightarrow>
                   if c = CHR '':''
                   then map_option (\<lambda>t. (tok, t))
                          (spaces_then_text (length (takeWhile isspace rest)) rest)
                   else None))"

fun preprocess_loop :: "string list \<Rightarrow> message list \<Rightarrow> message list" where
  \<comment> \<open>The loop of \<open>preprocess_chat\<close> over the lines; \<open>messages\<close> is the list it appends to.\<close>
  "preprocess_loop [] messages = messages"
| "preprocess_loop (raw # lines) messages =
     (let line = str_strip raw in
      if line = [] then preprocess_loop lines messages
      else (case speaker_pattern_match line of
              Some (speaker, tx) \<Rightarrow> preprocess_loop lines (messages @ [Message speaker tx])
            | None \<Rightarrow> preprocess_loop lines (messages @ [Message ''Unknown'' line])))"

definition preprocess_chat :: "string \<Rightarrow> message list" where
  "preprocess_chat chat_text = preprocess_loop (splitlines chat_text) []"

section \<open>Floats and the source of randomness\<close>

text \<open>
  A Python float is an IEEE 754 binary64 number. The model holds a float as the real
  number it is, and an operation on floats as the exact operation followed by \<open>fl\<close>,
  the rounding to the nearest binary64 number, a tie going to the even significand.
  \<open>binade x\<close> is the exponent \<open>e\<close> with \<open>2^e \<le> x < 2^(e+1)\<close>; the floats of that
  binade are the multiples of \<open>2^(e-52)\<close>, and those below \<open>2^-1022\<close> the multiples
  of \<open>2^-1074\<close>. Overflow is left out: no float of this program exceeds 1.
  A float literal such as \<open>0.7\<close> is the float nearest to the decimal written,
  \<open>fl 0.7\<close>, and the quotient of two integers is the float nearest to the exact
  quotient.
\<close>

definition round_half_even :: "real \<Rightarrow> int" where
  \<comment> \<open>The nearest integer, a tie going to the even one.\<close>
  "round_half_even x =
     (let f = \<lfloor>x\<rfloor>; d = x - of_int f
      in if d < 1 / 2 then f
         else if 1 / 2 < d then f + 1
         else if even f then f else f + 1)"

function binade :: "real \<Rightarrow> int" where
  "binade x =
     (if x \<le> 0 then 0
      else if 2 \<le> x then binade (x / 2) + 1
      else if x < 1 then binade (2 * x) - 1
      else 0)"
  by pat_completeness auto
termination
proof (relation "measure (\<lambda>x. if x < 1 then nat \<lfloor>1 / x\<rfloor> + 1 else nat \<lfloor>x\<rfloor>)")
  show "wf (measure (\<lambda>x::real. if x < 1 then nat \<lfloor>1 / x\<rfloor> + 1 else nat \<lfloor>x\<rfloor>))"
    by simp
next
  have halve: "nat \<lfloor>y / 2\<rfloor> < nat \<lfloor>y\<rfloor>" if "2 \<le> y" for y :: real
  proof -
    from that have "y / 2 \<le> y - 1"
      by simp
    then have "\<lfloor>y / 2\<rfloor> \<le> \<lfloor>y - 1\<rfloor>"
      by (rule floor_mono)
    moreover have "\<lfloor>y - 1\<rfloor> = \<lfloor>y\<rfloor> - 1"
      by simp
    moreover from that have "2 \<le> \<lfloor>y\<rfloor>"
      by (simp add: le_floor_iff)
    ultimately show ?thesis
      by linarith
  qed
  {
    fix x :: real
    assume "\<not> x \<le> 0" "2 \<le> x"
    then show "(x / 2, x) \<in> measure (\<lambda>x. if x < 1 then nat \<lfloor>1 / x\<rfloor> + 1 else nat \<lfloor>x\<rfloor>)"
      using halve [of x] by simp
  next
    fix x :: real
    assume x: "\<not> x \<le> 0" "\<not> 2 \<le> x" "x < 1"
    show "(2 * x, x) \<in> measure (\<lambda>x. if x < 1 then nat \<lfloor>1 / x\<rfloor> + 1 else nat \<lfloor>x\<rfloor>)"
    proof (cases "2 * x < 1")
      case True
      with x have "2 \<le> 1 / x"
        by (simp add: field_simps)
      from halve [OF this] have "nat \<lfloor>1 / (2 * x)\<rfloor> < nat \<lfloor>1 / x\<rfloor>"
        by (simp add: field_simps)
      with True x show ?thesis
        by simp
    next
      case False
      with x have "\<lfloor>2 * x\<rfloor> = 1"
        by (simp add: floor_eq_iff)
      moreover from x have "1 \<le> \<lfloor>1 / x\<rfloor>"
        by (simp add: le_floor_iff field_simps)
      ultimately show ?thesis
        using False x by simp
    qed
  }
qed

definition fl :: "real \<Rightarrow> real" where
  "fl x =
     (let u = 2 powi (max (binade \<bar>x\<bar>) (- 1022) - 52)
      in of_int (round_half_even (x / u)) * u)"

text \<open>
  \<open>round(x, 2)\<close> takes the exact value of the float \<open>x\<close> to the nearest hundredth
  \<open>k/100\<close>, a tie going to the even \<open>k\<close>, and returns the float nearest to that
  decimal. The model holds the result as the decimal \<open>k/100\<close> itself, which is what
  Python prints for it; confidences and the influence score are such results, and
  nothing is computed from them afterwards.
\<close>

definition round2 :: "real \<Rightarrow> real" where
  \<comment> \<open>\<open>round(x, 2)\<close>\<close>
  "round2 x = of_int (round_half_even (x * 100)) / 100"

text \<open>
  The analyzer calls \<open>random.uniform\<close> of the module \<open>random\<close>, whose hidden
  generator is one object of the process, seeded when the module is first imported.
  The generator is modelled by its state, the stream of the 53-bit numerators still
  to come; \<open>random.random()\<close> takes the next one, \<open>w\<close>, and returns the float
  \<open>w / 2^53\<close>, and \<open>random.uniform(a, b)\<close> is \<open>a + (b - a) * random()\<close> in float
  arithmetic. Every function that draws takes the state and returns the state left
  behind.
\<close>

type_synonym rng = "53 word stream"

definition random :: "rng \<Rightarrow> real \<times> rng" where
  "random g = (real (unat (shd g)) / 9007199254740992, stl g)"

definition uniform :: "real \<Rightarrow> real \<Rightarrow> rng \<Rightarrow> real \<times> rng" where
  "uniform a b g = (case random g of (r, g') \<Rightarrow> (fl (a + fl (fl (b - a) * r)), g'))"

section \<open>The analyzer\<close>

definition MANIPULATION_RULES :: "(string \<times> string list) list" where
  \<comment> \<open>A dictionary literal: \<open>.items()\<close> yields its entries in the order written.\<close>
  "MANIPULATION_RULES =
     [(''guilt-tripping'',
         [''after all'', ''because i'', ''you owed me'', ''you owe me'', ''you should have'']),
      (''flattery'',
         [''you're the only one'', ''you're the best'', ''no one else like you'',
          ''only you can'']),
      (''fear-pressure'',
         [''if you don't'', ''or else'', ''you will regret'', ''you'll regret''])]"

definition ACCEPTANCE_KEYWORDS :: "string list" where
  "ACCEPTANCE_KEYWORDS =
     [''okay'', ''ok'', ''fine'', ''i'll'', ''i will'', ''sure'', ''alright'', ''accepted'',
      ''yes'']"

definition str_replace_char :: "char \<Rightarrow> char \<Rightarrow> string \<Rightarrow> string" where
  \<comment> \<open>\<open>s.replace(a, b)\<close> for one-character \<open>a\<close> and \<open>b\<close>.\<close>
  "str_replace_char a b s = map (\<lambda>c. if c = a then b else c) s"

text \<open>\<open>trig in n\<close> on strings is \<open>sublist trig n\<close>: \<open>trig\<close> occurs in \<open>n\<close> as a contiguous run.\<close>

fun first_trigger :: "string list \<Rightarrow> string \<Rightarrow> string option" where
  \<comment> \<open>The inner loop of \<open>analyze_message\<close>: the first trigger of one category found in \<open>n\<close>.\<close>
  "first_trigger [] n = None"
| "first_trigger (trig # triggers) n =
     (if sublist trig n then Some trig else first_trigger triggers n)"

fun first_rule :: "(string \<times> string list) list \<Rightarrow> string \<Rightarrow> (string \<times> string) option" where
  \<comment> \<open>The outer loop: the first category with a trigger in \<open>n\<close>, and that trigger.\<close>
  "first_rule [] n = None"
| "first_rule ((lab, triggers) # rules) n =
     (case first_trigger triggers n of
        Some trig \<Rightarrow> Some (lab, trig)
      | None \<Rightarrow> first_rule rules n)"

definition analyze_message :: "string \<Rightarrow> rng \<Rightarrow> (string \<times> real \<times> string) \<times> rng" where
  \<comment> \<open>Returns \<open>(label, confidence, explanation)\<close> and the generator state.\<close>
  "analyze_message tx g =
     (let n = norm_text tx in
      case first_rule MANIPULATION_RULES n of
        Some (lab, trig) \<Rightarrow>
          (case uniform (fl 0.7) (fl 0.95) g of
             (u, g') \<Rightarrow>
               ((lab, round2 u,
                 ''Phrase '' @ [CHR 0x27] @ trig @ [CHR 0x27] @ '' detected; suggests '' @
                 str_replace_char CHR ''-'' CHR '' '' lab @ ''.''), g'))
      | None \<Rightarrow>
          (case uniform (fl 0.7) (fl 0.95) g of
             (u, g') \<Rightarrow> ((''neutral'', round2 u, ''No manipulation keyword detected.''), g')))"

record analysis =
  speaker :: string
  msg_text :: string
  label :: string
  confidence :: real
  explanation :: string

record loop_state =
  analyzed :: "analysis list"
  manipulative_count :: nat
  prev_analysis :: "analysis option"
  gen :: rng

definition contains_acceptance :: "string \<Rightarrow> bool" where
  \<comment> \<open>\<open>any(k in n_text for k in ACCEPTANCE_KEYWORDS)\<close>\<close>
  "contains_acceptance n_text = list_ex (\<lambda>k. sublist k n_text) ACCEPTANCE_KEYWORDS"

definition pressured_acceptance :: "analysis \<Rightarrow> rng \<Rightarrow> (string \<times> real \<times> string) \<times> rng" where
  \<comment> \<open>The body of the override: the label, a fresh confidence, the explanation.\<close>
  "pressured_acceptance p g =
     (case uniform (fl 0.75) (fl 0.97) g of
        (u, g') \<Rightarrow>
          ((''pressured acceptance'', round2 u,
            ''Message contains acceptance keywords and was preceded by a manipulative message ''
            @ ''from '' @ speaker p @ ''. This suggests pressured acceptance.''), g'))"

definition override ::
  "analysis option \<Rightarrow> string \<Rightarrow> string \<Rightarrow> (string \<times> real \<times> string) \<Rightarrow> rng
     \<Rightarrow> (string \<times> real \<times> string) \<times> rng" where
  \<comment> \<open>The \<open>if\<close> of the override; \<open>None\<close> is falsy, an analysis (a dictionary with
      five keys) never is.\<close>
  "override prev sp tx r g =
     (let n_text = norm_text tx in
      case prev of
        None \<Rightarrow> (r, g)
      | Some p \<Rightarrow>
          if contains_acceptance n_text \<and> label p \<noteq> ''neutral'' \<and> speaker p \<noteq> sp
          then pressured_acceptance p g
          else (r, g))"

definition chat_step :: "loop_state \<Rightarrow> message \<Rightarrow> loop_state" where
  \<comment> \<open>One turn of the loop of \<open>analyze_chat\<close>.\<close>
  "chat_step st msg =
     (let sp = dict_get msg ''speaker'' ''Unknown'';
          tx = dict_get msg ''text'' [] in
      case analyze_message tx (gen st) of
        (r0, g1) \<Rightarrow>
          (case override (prev_analysis st) sp tx r0 g1 of
             ((lab, conf, expl), g2) \<Rightarrow>
               (let a = \<lparr>speaker = sp, msg_text = tx, label = lab, confidence = conf,
                         explanation = expl\<rparr>
                in \<lparr>analyzed = analyzed st @ [a],
                    manipulative_count =
                      (if lab \<noteq> ''neutral'' then manipulative_count st + 1
                       else manipulative_count st),
                    prev_analysis = Some a,
                    gen = g2\<rparr>)))"

record analysis_result =
  messages :: "analysis list"
  influence_score :: real

definition analyze_chat :: "message list \<Rightarrow> rng \<Rightarrow> analysis_result \<times> rng" where
  "analyze_chat msgs g =
     (let st = foldl chat_step
                 \<lparr>analyzed = [], manipulative_count = 0, prev_analysis = None, gen = g\<rparr> msgs;
          total = max (length msgs) 1
      in (\<lparr>messages = analyzed st,
           influence_score = round2 (fl (real (manipulative_count st) / real total))\<rparr>,
          gen st))"

section \<open>The endpoint\<close>

text \<open>
  \<open>POST /analyze\<close> of \<open>main.py\<close>: an empty or blank chat text is refused with status
  400; otherwise the text is segmented and analyzed, and the response models are built
  field by field from the result, so the response is that result. The generator of the
  module \<open>random\<close> outlives the request: the endpoint takes the state the process is
  in and returns the state it leaves the process in.
\<close>

datatype http_error = HTTPException nat string

definition analyze :: "string \<Rightarrow> rng \<Rightarrow> (http_error + analysis_result) \<times> rng" where
  "analyze chat_text g =
     (if chat_text = [] \<or> str_strip chat_text = []
      then (Inl (HTTPException 400 ''Empty chat text provided.''), g)
      else (case analyze_chat (preprocess_chat chat_text) g of
              (result, g') \<Rightarrow>
                (Inr \<lparr>messages = messages result, influence_score = influence_score result\<rparr>,
                 g')))"

section \<open>Notions used in the statements and proofs\<close>

text \<open>
  \<open>analyze_one prev g msg\<close> is the analysis that one turn of the loop appends, and the
  generator state after it, when the turn starts with \<open>prev_analysis = prev\<close> and the
  generator in state \<open>g\<close>. \<open>analyses prev g msgs\<close> unrolls the loop from there.
\<close>

definition analyze_one :: "analysis option \<Rightarrow> rng \<Rightarrow> message \<Rightarrow> analysis \<times> rng" where
  "analyze_one prev g msg =
     (let st = chat_step
                 \<lparr>analyzed = [], manipulative_count = 0, prev_analysis = prev, gen = g\<rparr> msg
      in (last (analyzed st), gen st))"

fun analyses :: "analysis option \<Rightarrow> rng \<Rightarrow> message list \<Rightarrow> analysis list" where
  "analyses prev g [] = []"
| "analyses prev g (m # ms) =
     fst (analyze_one prev g m)
       # analyses (Some (fst (analyze_one prev g m))) (snd (analyze_one prev g m)) ms"

text \<open>What a later message can see of an analysis: its speaker and its label.\<close>

definition seen :: "analysis option \<Rightarrow> (string \<times> string) option" where
  "seen prev = map_option (\<lambda>p. (speaker p, label p)) prev"

text \<open>The rules as one list of (category, trigger) pairs, in the order of the declaration.\<close>

definition rule_order :: "(string \<times> string) list" where
  "rule_order = concat (map (\<lambda>(lab, triggers). map (Pair lab) triggers) MANIPULATION_RULES)"

text \<open>The condition under which a turn of the loop overrides the rule-based result.\<close>

definition over_cond :: "analysis option \<Rightarrow> message \<Rightarrow> bool" where
  "over_cond prev msg =
     (contains_acceptance (norm_text (dict_get msg ''text'' [])) \<and>
      (\<exists>p. prev = Some p \<and> label p \<noteq> ''neutral'' \<and>
           speaker p \<noteq> dict_get msg ''speaker'' ''Unknown''))"

text \<open>
  The speaker pattern in the words of the specification: optional leading whitespace, a
  token of one or more word characters, optional whitespace, a colon, optional
  whitespace, then the remainder of the line, which is not empty and starts where the
  whitespace ends.
\<close>

definition spec_speaker_line :: "string \<Rightarrow> string \<Rightarrow> string \<Rightarrow> bool" where
  "spec_speaker_line line tok rest =
     (\<exists>w1 w2 w3.
        line = w1 @ tok @ w2 @ '':'' @ w3 @ rest \<and>
        list_all isspace w1 \<and> tok \<noteq> [] \<and> list_all isword tok \<and>
        list_all isspace w2 \<and> list_all isspace w3 \<and>
        rest \<noteq> [] \<and> \<not> isspace (hd rest))"

text \<open>
  The exponent of the spacing of the floats around \<open>x\<close>, and the two confidence
  expressions of the source, \<open>round(random.uniform(0.7, 0.95), 2)\<close> and
  \<open>round(random.uniform(0.75, 0.97), 2)\<close>, as functions of the generator state.
\<close>

definition ulp_exp :: "real \<Rightarrow> int" where
  "ulp_exp x = max (binade \<bar>x\<bar>) (- 1022) - 52"

definition rule_confidence :: "rng \<Rightarrow> real" where
  "rule_confidence g = round2 (fst (uniform (fl 0.7) (fl 0.95) g))"

definition override_confidence :: "rng \<Rightarrow> real" where
  "override_confidence g = round2 (fst (uniform (fl 0.75) (fl 0.97) g))"

section \<open>Rounding and the draws\<close>

declare binade.simps [simp del]

lemma round_half_even_of_int: "round_half_even (of_int k) = k"
  by (simp add: round_half_even_def)

lemma round_half_even_lower: "\<lfloor>x\<rfloor> \<le> round_half_even x"
  by (simp add: round_half_even_def Let_def)

lemma round_half_even_upper: "round_half_even x \<le> \<lfloor>x\<rfloor> + 1"
  by (simp add: round_half_even_def Let_def)

lemma round_half_even_mono:
  assumes "x \<le> y"
  shows "round_half_even x \<le> round_half_even y"
proof (cases "\<lfloor>x\<rfloor> = \<lfloor>y\<rfloor>")
  case True
  then have "x - of_int \<lfloor>x\<rfloor> \<le> y - of_int \<lfloor>y\<rfloor>"
    using assms by simp
  then show ?thesis
    using True by (auto simp: round_half_even_def Let_def)
next
  case False
  then have "\<lfloor>x\<rfloor> < \<lfloor>y\<rfloor>"
    using floor_mono [OF assms] by linarith
  then have "round_half_even x \<le> \<lfloor>y\<rfloor>"
    using round_half_even_upper [of x] by linarith
  then show ?thesis
    using round_half_even_lower [of y] by linarith
qed

lemma round_half_even_near:
  "\<bar>of_int (round_half_even x) - x\<bar> \<le> 1 / 2
   \<and> (\<bar>of_int (round_half_even x) - x\<bar> = 1 / 2 \<longrightarrow> even (round_half_even x))"
proof -
  define d where "d = x - of_int \<lfloor>x\<rfloor>"
  have d: "0 \<le> d" "d < 1"
    unfolding d_def by linarith+
  have x: "x = of_int \<lfloor>x\<rfloor> + d"
    unfolding d_def by simp
  consider "d < 1 / 2" | "1 / 2 < d" | "d = 1 / 2"
    by linarith
  then show ?thesis
  proof cases
    case 1
    then have "round_half_even x = \<lfloor>x\<rfloor>"
      by (simp add: round_half_even_def d_def)
    then have "\<bar>of_int (round_half_even x) - x\<bar> = d"
      using d by (simp add: d_def)
    with 1 show ?thesis
      by simp
  next
    case 2
    then have "round_half_even x = \<lfloor>x\<rfloor> + 1"
      by (simp add: round_half_even_def d_def)
    then have "\<bar>of_int (round_half_even x) - x\<bar> = 1 - d"
      using d by (simp add: d_def)
    with 2 show ?thesis
      by simp
  next
    case 3
    then have r: "round_half_even x = (if even \<lfloor>x\<rfloor> then \<lfloor>x\<rfloor> else \<lfloor>x\<rfloor> + 1)"
      by (simp add: round_half_even_def d_def)
    then have "even (round_half_even x)"
      by simp
    moreover have "\<bar>of_int (round_half_even x) - x\<bar> = 1 / 2"
      using 3 unfolding r by (simp add: d_def)
    ultimately show ?thesis
      by simp
  qed
qed

subsection \<open>Binades\<close>

lemma binade_bounds: "0 < x \<Longrightarrow> 2 powi binade x \<le> x \<and> x < 2 powi (binade x + 1)"
proof (induction x rule: binade.induct)
  case (1 x)
  show ?case
  proof (cases "2 \<le> x")
    case True
    with 1 have ih: "2 powi binade (x / 2) \<le> x / 2 \<and> x / 2 < 2 powi (binade (x / 2) + 1)"
      by simp
    have b: "binade x = binade (x / 2) + 1"
      using True "1.prems" by (subst binade.simps) simp
    show ?thesis
      unfolding b using ih by (simp add: power_int_add field_simps)
  next
    case False
    show ?thesis
    proof (cases "x < 1")
      case True
      with 1 False have ih: "2 powi binade (2 * x) \<le> 2 * x \<and> 2 * x < 2 powi (binade (2 * x) + 1)"
        by simp
      have b: "binade x = binade (2 * x) - 1"
        using True False "1.prems" by (subst binade.simps) simp
      show ?thesis
        unfolding b using ih by (simp add: power_int_diff power_int_add field_simps)
    next
      case ge: False
      have b: "binade x = 0"
        using ge False "1.prems" by (subst binade.simps) simp
      show ?thesis
        unfolding b using ge False by simp
    qed
  qed
qed

lemma pow2_mono: "a \<le> b \<Longrightarrow> (2::real) powi a \<le> 2 powi b"
  by (rule power_int_increasing) simp_all

lemma pow2_less_cancel: "(2::real) powi a < 2 powi b \<Longrightarrow> a < b"
  using pow2_mono [of b a] by (cases "a < b") simp_all

lemma binade_unique:
  assumes "0 < x" "2 powi e \<le> x" "x < 2 powi (e + 1)"
  shows "binade x = e"
proof -
  from binade_bounds [OF assms(1)] assms(2,3)
  have "(2::real) powi binade x < 2 powi (e + 1)" "(2::real) powi e < 2 powi (binade x + 1)"
    by linarith+
  then have "binade x < e + 1" "e < binade x + 1"
    by (auto dest: pow2_less_cancel)
  then show ?thesis
    by simp
qed

lemma binade_mono:
  assumes "0 < x" "x \<le> y"
  shows "binade x \<le> binade y"
proof -
  have "0 < y"
    using assms by simp
  from binade_bounds [OF assms(1)] binade_bounds [OF this] assms(2)
  have "(2::real) powi binade x < 2 powi (binade y + 1)"
    by linarith
  then have "binade x < binade y + 1"
    by (rule pow2_less_cancel)
  then show ?thesis
    by simp
qed

subsection \<open>Rounding to a float\<close>

lemma fl_ulp: "fl x = of_int (round_half_even (x / 2 powi ulp_exp x)) * 2 powi ulp_exp x"
  by (simp add: fl_def ulp_exp_def Let_def)

lemma fl_zero [simp]: "fl 0 = 0"
  by (simp add: fl_def round_half_even_def)

lemma fl_eval:
  assumes "2 powi e \<le> \<bar>x\<bar>" "\<bar>x\<bar> < 2 powi (e + 1)" "- 1022 \<le> e"
  shows "fl x = of_int (round_half_even (x / 2 powi (e - 52))) * 2 powi (e - 52)"
proof -
  have "0 < \<bar>x\<bar>"
    using assms(1) by (smt (verit) zero_less_power_int)
  then have "binade \<bar>x\<bar> = e"
    using assms(1,2) by (rule binade_unique)
  then show ?thesis
    using assms(3) by (simp add: fl_def Let_def max_def)
qed

lemma fl_nonneg: "0 \<le> x \<Longrightarrow> 0 \<le> fl x"
proof -
  assume "0 \<le> x"
  then have "0 \<le> x / 2 powi ulp_exp x"
    by simp
  then have "round_half_even 0 \<le> round_half_even (x / 2 powi ulp_exp x)"
    by (rule round_half_even_mono)
  then have "0 \<le> round_half_even (x / 2 powi ulp_exp x)"
    by (simp add: round_half_even_def)
  then show ?thesis
    by (simp add: fl_ulp)
qed

lemma fl_upper:
  assumes "0 < x"
  shows "fl x \<le> 2 powi (ulp_exp x + 53)"
proof -
  let ?u = "(2::real) powi ulp_exp x"
  have "x < 2 powi (binade x + 1)"
    using binade_bounds [OF assms] by blast
  also have "\<dots> \<le> 2 powi (ulp_exp x + 53)"
    using assms by (intro pow2_mono) (simp add: ulp_exp_def)
  finally have "x / ?u \<le> 2 powi (ulp_exp x + 53) / ?u"
    by (simp add: divide_right_mono)
  also have "\<dots> = 2 ^ 53"
    by (simp add: power_int_add)
  finally have "round_half_even (x / ?u) \<le> round_half_even (of_int (2 ^ 53))"
    by (intro round_half_even_mono) simp
  then have "of_int (round_half_even (x / ?u)) \<le> (2::real) ^ 53"
    unfolding round_half_even_of_int by (metis of_int_le_iff of_int_numeral of_int_power)
  then have "of_int (round_half_even (x / ?u)) * ?u \<le> 2 ^ 53 * ?u"
    by (intro mult_right_mono) simp_all
  also have "\<dots> = 2 powi (ulp_exp x + 53)"
    by (simp add: power_int_add)
  finally show ?thesis
    by (simp add: fl_ulp)
qed

lemma fl_lower:
  assumes "0 < x" "- 1022 \<le> binade x"
  shows "2 powi (ulp_exp x + 52) \<le> fl x"
proof -
  let ?u = "(2::real) powi ulp_exp x"
  have e: "ulp_exp x = binade x - 52"
    using assms by (simp add: ulp_exp_def)
  have "2 powi (ulp_exp x + 52) \<le> x"
    using binade_bounds [OF assms(1)] unfolding e by simp
  then have "2 powi (ulp_exp x + 52) / ?u \<le> x / ?u"
    by (simp add: divide_right_mono)
  moreover have "2 powi (ulp_exp x + 52) / ?u = 2 ^ 52"
    by (simp add: power_int_add)
  ultimately have "round_half_even (of_int (2 ^ 52)) \<le> round_half_even (x / ?u)"
    by (intro round_half_even_mono) simp
  then have "(2::real) ^ 52 \<le> of_int (round_half_even (x / ?u))"
    unfolding round_half_even_of_int by (metis of_int_le_iff of_int_numeral of_int_power)
  then have m: "2 ^ 52 * ?u \<le> of_int (round_half_even (x / ?u)) * ?u"
    by (intro mult_right_mono) simp_all
  have "2 powi (ulp_exp x + 52) = 2 ^ 52 * ?u"
    by (simp add: power_int_add)
  also note m
  finally show ?thesis
    unfolding fl_ulp .
qed

lemma fl_mono:
  assumes "0 \<le> x" "x \<le> y"
  shows "fl x \<le> fl y"
proof (cases "x = 0")
  case True
  with assms show ?thesis
    using fl_nonneg [of y] by simp
next
  case False
  with assms have x: "0 < x" and y: "0 < y"
    by simp_all
  have le: "ulp_exp x \<le> ulp_exp y"
    using binade_mono [OF x assms(2)] x y by (simp add: ulp_exp_def)
  show ?thesis
  proof (cases "ulp_exp x = ulp_exp y")
    case True
    have "x / 2 powi ulp_exp y \<le> y / 2 powi ulp_exp y"
      using assms(2) by (simp add: divide_right_mono)
    then have "round_half_even (x / 2 powi ulp_exp y) \<le> round_half_even (y / 2 powi ulp_exp y)"
      by (rule round_half_even_mono)
    then show ?thesis
      unfolding fl_ulp True by (intro mult_right_mono) simp_all
  next
    case False
    with le have lt: "ulp_exp x + 1 \<le> ulp_exp y"
      by simp
    then have "- 1022 \<le> binade y"
      using x y by (simp add: ulp_exp_def max_def split: if_splits)
    from fl_lower [OF y this] have "2 powi (ulp_exp y + 52) \<le> fl y" .
    moreover have "(2::real) powi (ulp_exp x + 53) \<le> 2 powi (ulp_exp y + 52)"
      using lt by (intro pow2_mono) simp
    ultimately show ?thesis
      using fl_upper [OF x] by linarith
  qed
qed

lemma fl_one [simp]: "fl 1 = 1"
  by (simp add: fl_def binade.simps round_half_even_def)

lemma fl_unit: "0 \<le> x \<Longrightarrow> x \<le> 1 \<Longrightarrow> 0 \<le> fl x \<and> fl x \<le> 1"
  using fl_nonneg [of x] fl_mono [of x 1] by simp

lemma fl_error:
  "\<bar>fl x - x\<bar> \<le> 2 powi ulp_exp x / 2"
proof -
  let ?u = "(2::real) powi ulp_exp x"
  have u: "0 < ?u"
    by simp
  have "\<bar>of_int (round_half_even (x / ?u)) - x / ?u\<bar> \<le> 1 / 2"
    using round_half_even_near [of "x / ?u"] by blast
  then have "\<bar>of_int (round_half_even (x / ?u)) - x / ?u\<bar> * ?u \<le> 1 / 2 * ?u"
    using u by (intro mult_right_mono) simp_all
  moreover have "\<bar>of_int (round_half_even (x / ?u)) - x / ?u\<bar> * ?u = \<bar>fl x - x\<bar>"
  proof -
    have "\<bar>of_int (round_half_even (x / ?u)) - x / ?u\<bar> * ?u
        = \<bar>(of_int (round_half_even (x / ?u)) - x / ?u) * ?u\<bar>"
      using u by (simp add: abs_mult)
    also have "(of_int (round_half_even (x / ?u)) - x / ?u) * ?u = fl x - x"
      using u by (simp add: fl_ulp algebra_simps)
    finally show ?thesis .
  qed
  ultimately show ?thesis
    by simp
qed

lemma fl_error_unit:
  assumes "0 \<le> x" "x \<le> 1"
  shows "\<bar>fl x - x\<bar> \<le> 1 / 2 ^ 54"
proof (cases "x = 1")
  case True
  then show ?thesis by simp
next
  case False
  show ?thesis
  proof (cases "x = 0")
    case True
    then show ?thesis by simp
  next
    case nz: False
    with assms False have x: "0 < x" "x < 1"
      by simp_all
    have "(2::real) powi binade x \<le> x"
      using binade_bounds [OF x(1)] by blast
    with x(2) have "(2::real) powi binade x < 2 powi 0"
      by simp
    then have "binade x < 0"
      by (rule pow2_less_cancel)
    then have "ulp_exp x \<le> - 53"
      using x by (simp add: ulp_exp_def)
    then have "(2::real) powi ulp_exp x \<le> 2 powi (- 53)"
      by (rule pow2_mono)
    then have "(2::real) powi ulp_exp x / 2 \<le> 1 / 2 ^ 54"
      by (simp add: power_int_minus field_simps)
    with fl_error [of x] show ?thesis
      by linarith
  qed
qed

subsection \<open>Rounding to hundredths\<close>

lemma round2_mono: "x \<le> y \<Longrightarrow> round2 x \<le> round2 y"
  by (simp add: round2_def round_half_even_mono divide_right_mono)

lemma round2_grid: "round2 (of_int k / 100) = of_int k / 100"
  by (simp add: round2_def round_half_even_of_int)

lemma round2_between:
  assumes "of_int a / 100 \<le> x" "x \<le> of_int b / 100"
  shows "of_int a / 100 \<le> round2 x \<and> round2 x \<le> of_int b / 100"
  using round2_mono [OF assms(1)] round2_mono [OF assms(2)] by (simp add: round2_grid)

lemma round2_near:
  "\<exists>k :: int. round2 x = of_int k / 100 \<and> \<bar>round2 x - x\<bar> \<le> 1 / 200 \<and>
     (\<bar>round2 x - x\<bar> = 1 / 200 \<longrightarrow> even k)"
proof -
  let ?k = "round_half_even (x * 100)"
  have e: "\<bar>round2 x - x\<bar> = \<bar>of_int ?k - x * 100\<bar> / 100"
    by (simp add: round2_def abs_if field_simps)
  have "\<bar>of_int ?k - x * 100\<bar> \<le> 1 / 2"
    and "\<bar>of_int ?k - x * 100\<bar> = 1 / 2 \<longrightarrow> even ?k"
    using round_half_even_near [of "x * 100"] by blast+
  then have "\<bar>round2 x - x\<bar> \<le> 1 / 200 \<and> (\<bar>round2 x - x\<bar> = 1 / 200 \<longrightarrow> even ?k)"
    unfolding e by (simp add: field_simps)
  then show ?thesis
    by (intro exI [of _ ?k]) (simp add: round2_def)
qed

subsection \<open>The draws\<close>

lemma random_range: "0 \<le> fst (random g) \<and> fst (random g) < 1"
proof -
  have "unat (shd g) < 9007199254740992"
    using unsigned_less [of "shd g", where ?'a = nat] by simp
  then have "real (unat (shd g)) < real 9007199254740992"
    by (simp only: of_nat_less_iff)
  then show ?thesis
    by (simp add: random_def del: of_nat_unat)
qed

lemma random_state: "snd (random g) = stl g"
  by (simp add: random_def)

lemma uniform_state: "snd (uniform a b g) = stl g"
  by (simp add: uniform_def random_def)

lemma uniform_value: "fst (uniform a b g) = fl (a + fl (fl (b - a) * fst (random g)))"
  by (simp add: uniform_def split: prod.splits)

lemma float_literals:
  "fl 0.7 = 3152519739159347 / 4503599627370496"
  "fl 0.95 = 4278419646001971 / 4503599627370496"
  "fl 0.75 = 3 / 4"
  "fl 0.97 = 4368491638549381 / 4503599627370496"
  by (simp_all add: fl_def binade.simps round_half_even_def)

lemma float_widths:
  "fl (fl 0.95 - fl 0.7) = 1 / 4"
  "fl (fl 0.97 - fl 0.75) = 990791918021509 / 4503599627370496"
  unfolding float_literals by (simp_all add: fl_def binade.simps round_half_even_def)

lemma float_fixed:
  "fl (3152519739159347 / 4503599627370496) = 3152519739159347 / 4503599627370496"
  "fl (4278419646001971 / 4503599627370496) = 4278419646001971 / 4503599627370496"
  "fl (3 / 4) = 3 / 4"
  "fl (4368491638549381 / 4503599627370496) = 4368491638549381 / 4503599627370496"
  "fl (1 / 4) = 1 / 4"
  "fl (990791918021509 / 4503599627370496) = 990791918021509 / 4503599627370496"
  by (simp_all add: fl_def binade.simps round_half_even_def)

lemma uniform_between:
  assumes a: "0 \<le> a" "fl a = a" and d: "0 \<le> d" "fl d = d" and b: "fl (a + d) = a + d"
    and w: "fl (b - a) = d"
  shows "a \<le> fst (uniform a b g) \<and> fst (uniform a b g) \<le> a + d"
proof -
  let ?r = "fst (random g)"
  have r: "0 \<le> ?r" "?r < 1"
    using random_range [of g] by blast+
  have "0 \<le> d * ?r" "d * ?r \<le> d"
    using d(1) r by (simp_all add: mult_left_le)
  then have p: "0 \<le> fl (d * ?r)" "fl (d * ?r) \<le> d"
    using fl_nonneg [of "d * ?r"] fl_mono [of "d * ?r" d] d(2) by simp_all
  have "fl a \<le> fl (a + fl (d * ?r))" "fl (a + fl (d * ?r)) \<le> fl (a + d)"
    using a(1) p by (auto intro!: fl_mono)
  then show ?thesis
    unfolding uniform_value w a(2) b by blast
qed

lemma rule_draw_range:
  "fl 0.7 \<le> fst (uniform (fl 0.7) (fl 0.95) g) \<and> fst (uniform (fl 0.7) (fl 0.95) g) \<le> fl 0.95"
proof -
  have s: "fl 0.7 + 1 / 4 = fl 0.95"
    unfolding float_literals by simp
  have "fl 0.7 \<le> fst (uniform (fl 0.7) (fl 0.95) g) \<and>
      fst (uniform (fl 0.7) (fl 0.95) g) \<le> fl 0.7 + 1 / 4"
  proof (rule uniform_between)
    show "0 \<le> fl 0.7" "fl (fl 0.7) = fl 0.7" "fl (fl 0.7 + 1 / 4) = fl 0.7 + 1 / 4"
      unfolding s unfolding float_literals float_fixed by simp_all
    show "(0::real) \<le> 1 / 4" "fl (1 / 4) = 1 / 4"
      by (simp_all add: float_fixed)
    show "fl (fl 0.95 - fl 0.7) = 1 / 4"
      by (rule float_widths)
  qed
  then show ?thesis
    unfolding s .
qed

lemma override_draw_range:
  "fl 0.75 \<le> fst (uniform (fl 0.75) (fl 0.97) g) \<and>
   fst (uniform (fl 0.75) (fl 0.97) g) \<le> fl 0.97"
proof -
  let ?d = "990791918021509 / 4503599627370496 :: real"
  have s: "fl 0.75 + ?d = fl 0.97"
    unfolding float_literals by simp
  have "fl 0.75 \<le> fst (uniform (fl 0.75) (fl 0.97) g) \<and>
      fst (uniform (fl 0.75) (fl 0.97) g) \<le> fl 0.75 + ?d"
  proof (rule uniform_between)
    show "0 \<le> fl 0.75" "fl (fl 0.75) = fl 0.75" "fl (fl 0.75 + ?d) = fl 0.75 + ?d"
      unfolding s unfolding float_literals float_fixed by simp_all
    show "0 \<le> ?d" "fl ?d = ?d"
      by (simp_all add: float_fixed)
    show "fl (fl 0.97 - fl 0.75) = ?d"
      by (rule float_widths)
  qed
  then show ?thesis
    unfolding s .
qed

lemma rounded_literals:
  "round2 (fl 0.7) = 7 / 10" "round2 (fl 0.95) = 95 / 100"
  "round2 (fl 0.75) = 75 / 100" "round2 (fl 0.97) = 97 / 100"
  unfolding float_literals by (simp_all add: round2_def round_half_even_def)

lemma conf_rule_range: "7 / 10 \<le> rule_confidence g \<and> rule_confidence g \<le> 95 / 100"
  using round2_mono [OF rule_draw_range [of g, THEN conjunct1]]
    round2_mono [OF rule_draw_range [of g, THEN conjunct2]]
  unfolding rounded_literals rule_confidence_def by blast

lemma conf_override_range: "75 / 100 \<le> override_confidence g \<and> override_confidence g \<le> 97 / 100"
  using round2_mono [OF override_draw_range [of g, THEN conjunct1]]
    round2_mono [OF override_draw_range [of g, THEN conjunct2]]
  unfolding rounded_literals override_confidence_def by blast

subsection \<open>Draws evaluated\<close>

lemma rule_confidence_eval:
  assumes "real (unat (shd g)) / 9007199254740992 = r"
    and "fl (1 / 4 * r) = p"
    and "fl (3152519739159347 / 4503599627370496 + p) = v"
    and "round2 v = c"
  shows "rule_confidence g = c"
proof -
  have "fst (uniform (fl 0.7) (fl 0.95) g) = fl (fl 0.7 + fl (fl (fl 0.95 - fl 0.7) * r))"
    unfolding uniform_value random_def fst_conv assms(1) ..
  also have "\<dots> = fl (fl 0.7 + fl (1 / 4 * r))"
    unfolding float_widths ..
  also have "\<dots> = v"
    unfolding float_literals assms(2) assms(3) ..
  finally show ?thesis
    unfolding rule_confidence_def using assms(4) by simp
qed

lemma override_confidence_eval:
  assumes "real (unat (shd g)) / 9007199254740992 = r"
    and "fl (990791918021509 / 4503599627370496 * r) = p"
    and "fl (3 / 4 + p) = v"
    and "round2 v = c"
  shows "override_confidence g = c"
proof -
  have "fst (uniform (fl 0.75) (fl 0.97) g) = fl (fl 0.75 + fl (fl (fl 0.97 - fl 0.75) * r))"
    unfolding uniform_value random_def fst_conv assms(1) ..
  also have "\<dots> = fl (fl 0.75 + fl (990791918021509 / 4503599627370496 * r))"
    unfolding float_widths ..
  also have "\<dots> = v"
    unfolding float_literals assms(2) assms(3) ..
  finally show ?thesis
    unfolding override_confidence_def using assms(4) by simp
qed

lemmas num_ev = fl_def binade.simps round2_def round_half_even_def

lemma rule_confidence_at_zero: "shd g = 0 \<Longrightarrow> rule_confidence g = 7 / 10"
  by (rule rule_confidence_eval [where r = 0 and p = 0
        and v = "3152519739159347 / 4503599627370496"])
    (simp_all add: num_ev)

lemma rule_confidence_at_half: "shd g = 4503599627370496 \<Longrightarrow> rule_confidence g = 82 / 100"
  by (rule rule_confidence_eval [where r = "1 / 2" and p = "1 / 8"
        and v = "3715469692580659 / 4503599627370496"])
    (simp_all add: num_ev)

lemma rule_confidence_at_tie: "shd g = 180143985094820 \<Longrightarrow> rule_confidence g = 7 / 10"
  by (rule rule_confidence_eval [where r = "45035996273705 / 2251799813685248"
        and p = "45035996273705 / 9007199254740992"
        and v = "6350075474592399 / 9007199254740992"])
    (simp_all add: num_ev)

lemma override_confidence_at_zero: "shd g = 0 \<Longrightarrow> override_confidence g = 75 / 100"
  by (rule override_confidence_eval [where r = 0 and p = 0 and v = "3 / 4"])
    (simp_all add: num_ev)

lemma override_confidence_at_tie:
  "shd g = 204709073971385 \<Longrightarrow> override_confidence g = 76 / 100"
  by (rule override_confidence_eval [where r = "204709073971385 / 9007199254740992"
        and p = "5764607523034201 / 1152921504606846976"
        and v = "6800435437329449 / 9007199254740992"])
    (simp_all add: num_ev)

lemma exact_arithmetic_differs:
  "of_int (round_half_even ((7 / 10 + (95 / 100 - 7 / 10) * (180143985094820 / 9007199254740992)) * 100)) / 100
     = (71 / 100 :: real)"
  "of_int (round_half_even ((75 / 100 + (97 / 100 - 75 / 100) * (204709073971385 / 9007199254740992)) * 100)) / 100
     = (75 / 100 :: real)"
  by (simp_all add: round_half_even_def)

lemma quotient_one_fortieth: "round2 (fl (1 / 40)) = 3 / 100"
  by (simp add: num_ev)

section \<open>The analyzer, one turn at a time\<close>

subsection \<open>One message\<close>

lemma analyze_message_state: "snd (analyze_message tx g) = stl g"
  by (simp add: analyze_message_def uniform_def random_def Let_def split: option.splits prod.splits)

lemma analyze_message_confidence:
  "fst (snd (fst (analyze_message tx g))) = rule_confidence g"
  by (simp add: analyze_message_def rule_confidence_def Let_def split: option.splits prod.splits)

lemma analyze_message_label_det:
  "fst (fst (analyze_message tx g)) = fst (fst (analyze_message tx g'))"
  by (simp add: analyze_message_def Let_def split: option.splits prod.splits)

lemma analyze_message_explanation_det:
  "snd (snd (fst (analyze_message tx g))) = snd (snd (fst (analyze_message tx g')))"
  by (simp add: analyze_message_def Let_def split: option.splits prod.splits)

lemma first_trigger_mem: "first_trigger ts n = Some t \<Longrightarrow> t \<in> set ts \<and> sublist t n"
  by (induction ts) (auto split: if_splits)

lemma first_rule_mem:
  "first_rule rs n = Some (lab, t) \<Longrightarrow> \<exists>ts. (lab, ts) \<in> set rs \<and> t \<in> set ts \<and> sublist t n"
proof (induction rs)
  case Nil
  then show ?case by simp
next
  case (Cons r rs)
  obtain l ts where r: "r = (l, ts)" by (cases r)
  show ?case
  proof (cases "first_trigger ts n")
    case None
    with Cons r show ?thesis by auto
  next
    case (Some t')
    with Cons.prems r have "lab = l" "t = t'" by simp_all
    with Some r first_trigger_mem [of ts n t'] show ?thesis by auto
  qed
qed

lemma rule_labels:
  "fst (fst (analyze_message tx g)) \<in> {''guilt-tripping'', ''flattery'', ''fear-pressure'', ''neutral''}"
proof (cases "first_rule MANIPULATION_RULES (norm_text tx)")
  case None
  then show ?thesis
    by (simp add: analyze_message_def Let_def split: prod.splits)
next
  case (Some p)
  obtain lab t where p: "p = (lab, t)" by (cases p)
  from first_rule_mem [of MANIPULATION_RULES "norm_text tx" lab t] Some p
  have "lab \<in> fst ` set MANIPULATION_RULES" by force
  then have "lab \<in> {''guilt-tripping'', ''flattery'', ''fear-pressure''}"
    by (simp add: MANIPULATION_RULES_def)
  with Some p show ?thesis
    by (auto simp add: analyze_message_def Let_def split: prod.splits)
qed

lemma rule_label_not_pressured:
  "fst (fst (analyze_message tx g)) \<noteq> ''pressured acceptance''"
  using rule_labels [of tx g] by auto

subsection \<open>One turn of the loop\<close>

lemma chat_step_analyze_one:
  "chat_step st msg =
     \<lparr>analyzed = analyzed st @ [fst (analyze_one (prev_analysis st) (gen st) msg)],
      manipulative_count =
        (if label (fst (analyze_one (prev_analysis st) (gen st) msg)) \<noteq> ''neutral''
         then manipulative_count st + 1 else manipulative_count st),
      prev_analysis = Some (fst (analyze_one (prev_analysis st) (gen st) msg)),
      gen = snd (analyze_one (prev_analysis st) (gen st) msg)\<rparr>"
  by (simp add: analyze_one_def chat_step_def Let_def split: prod.splits)

lemma analyze_one_speaker: "speaker (fst (analyze_one prev g msg)) = dict_get msg ''speaker'' ''Unknown''"
  by (simp add: analyze_one_def chat_step_def Let_def split: prod.splits)

lemma analyze_one_text: "msg_text (fst (analyze_one prev g msg)) = dict_get msg ''text'' []"
  by (simp add: analyze_one_def chat_step_def Let_def split: prod.splits)

lemma analyze_one_label:
  "label (fst (analyze_one prev g msg)) =
     (if over_cond prev msg then ''pressured acceptance''
      else fst (fst (analyze_message (dict_get msg ''text'' []) g)))"
  by (cases prev)
    (auto simp add: over_cond_def analyze_one_def chat_step_def override_def pressured_acceptance_def
      Let_def split: prod.splits)

lemma analyze_one_explanation:
  "explanation (fst (analyze_one prev g msg)) =
     (if over_cond prev msg
      then ''Message contains acceptance keywords and was preceded by a manipulative message from ''
           @ speaker (the prev) @ ''. This suggests pressured acceptance.''
      else snd (snd (fst (analyze_message (dict_get msg ''text'' []) g))))"
  by (cases prev)
    (auto simp add: over_cond_def analyze_one_def chat_step_def override_def pressured_acceptance_def
      Let_def split: prod.splits)

lemma analyze_one_confidence:
  "confidence (fst (analyze_one prev g msg)) =
     (if over_cond prev msg then override_confidence (stl g) else rule_confidence g)"
proof -
  obtain r0 g1 where a: "analyze_message (dict_get msg ''text'' []) g = (r0, g1)"
    by (cases "analyze_message (dict_get msg ''text'' []) g")
  have g1: "g1 = stl g"
    using analyze_message_state [of "dict_get msg ''text'' []" g] a by simp
  have r0: "fst (snd r0) = rule_confidence g"
    using analyze_message_confidence [of "dict_get msg ''text'' []" g] a by simp
  show ?thesis
    using g1 r0
    by (cases prev)
      (auto simp add: a over_cond_def analyze_one_def chat_step_def override_def
        pressured_acceptance_def override_confidence_def Let_def split: prod.splits)
qed

lemma analyze_one_state:
  "snd (analyze_one prev g msg) = (if over_cond prev msg then stl (stl g) else stl g)"
proof -
  obtain r0 g1 where a: "analyze_message (dict_get msg ''text'' []) g = (r0, g1)"
    by (cases "analyze_message (dict_get msg ''text'' []) g")
  have g1: "g1 = stl g"
    using analyze_message_state [of "dict_get msg ''text'' []" g] a by simp
  show ?thesis
    using g1
    by (cases prev)
      (auto simp add: a over_cond_def analyze_one_def chat_step_def override_def
        pressured_acceptance_def uniform_def random_def Let_def split: prod.splits)
qed

subsection \<open>The loop\<close>

lemma foldl_chat_step_analyzed:
  "analyzed (foldl chat_step st ms) = analyzed st @ analyses (prev_analysis st) (gen st) ms"
proof (induction ms arbitrary: st)
  case Nil
  then show ?case by simp
next
  case (Cons m ms)
  show ?case
    by (simp add: Cons.IH [of "chat_step st m"]) (simp add: chat_step_analyze_one)
qed

lemma foldl_chat_step_count:
  "manipulative_count (foldl chat_step st ms) =
     manipulative_count st
       + length (filter (\<lambda>a. label a \<noteq> ''neutral'') (analyses (prev_analysis st) (gen st) ms))"
proof (induction ms arbitrary: st)
  case Nil
  then show ?case by simp
next
  case (Cons m ms)
  show ?case
    by (simp add: Cons.IH [of "chat_step st m"]) (simp add: chat_step_analyze_one)
qed

lemma length_analyses: "length (analyses prev g ms) = length ms"
  by (induction ms arbitrary: prev g) simp_all

lemma analyze_chat_messages: "messages (fst (analyze_chat ms g)) = analyses None g ms"
  by (simp add: analyze_chat_def Let_def foldl_chat_step_analyzed)

lemma analyze_chat_score:
  "influence_score (fst (analyze_chat ms g)) =
     round2 (fl (real (length (filter (\<lambda>a. label a \<noteq> ''neutral'') (analyses None g ms)))
                 / real (max (length ms) 1)))"
  by (simp add: analyze_chat_def Let_def foldl_chat_step_count)

lemma analyses_nth:
  "i < length ms \<Longrightarrow>
     \<exists>g'. analyses prev g ms ! i =
       fst (analyze_one (if i = 0 then prev else Some (analyses prev g ms ! (i - 1))) g' (ms ! i))"
proof (induction ms arbitrary: prev g i)
  case Nil
  then show ?case by simp
next
  case (Cons m ms)
  show ?case
  proof (cases i)
    case 0
    then show ?thesis by auto
  next
    case (Suc j)
    with Cons.prems have j: "j < length ms" by simp
    from Cons.IH [OF j, of "Some (fst (analyze_one prev g m))" "snd (analyze_one prev g m)"]
    obtain g' where g':
      "analyses (Some (fst (analyze_one prev g m))) (snd (analyze_one prev g m)) ms ! j =
         fst (analyze_one
               (if j = 0 then Some (fst (analyze_one prev g m))
                else Some (analyses (Some (fst (analyze_one prev g m))) (snd (analyze_one prev g m)) ms ! (j - 1)))
               g' (ms ! j))"
      by blast
    show ?thesis
    proof (cases j)
      case 0
      with g' Suc show ?thesis
        by (intro exI [of _ g']) simp
    next
      case (Suc k)
      with g' \<open>i = Suc j\<close> show ?thesis
        by (intro exI [of _ g']) simp
    qed
  qed
qed

lemma dict_get_Message [simp]:
  "dict_get (Message sp tx) ''speaker'' d = sp"
  "dict_get (Message sp tx) ''text'' d = tx"
  by (simp_all add: dict_get_def Message_def)

lemma contains_acceptance_iff:
  "contains_acceptance n = (\<exists>k \<in> set ACCEPTANCE_KEYWORDS. sublist k n)"
  by (simp add: contains_acceptance_def list_ex_iff)

subsection \<open>The order of the rules\<close>

lemma find_app:
  "List.find P (xs @ ys) = (case List.find P xs of Some x \<Rightarrow> Some x | None \<Rightarrow> List.find P ys)"
  by (induction xs) simp_all

lemma first_trigger_find:
  "List.find (\<lambda>(l, t). sublist t n) (map (Pair lab) ts) = map_option (Pair lab) (first_trigger ts n)"
  by (induction ts) simp_all

lemma first_rule_find:
  "first_rule rs n =
     List.find (\<lambda>(l, t). sublist t n) (concat (map (\<lambda>(lab, ts). map (Pair lab) ts) rs))"
proof (induction rs)
  case Nil
  then show ?case by simp
next
  case (Cons r rs)
  obtain lab ts where r: "r = (lab, ts)" by (cases r)
  show ?case
    by (cases "first_trigger ts n") (simp_all add: r find_app first_trigger_find Cons.IH)
qed

lemma rule_order_list:
  "rule_order =
     [(''guilt-tripping'', ''after all''), (''guilt-tripping'', ''because i''),
      (''guilt-tripping'', ''you owed me''), (''guilt-tripping'', ''you owe me''),
      (''guilt-tripping'', ''you should have''),
      (''flattery'', ''you're the only one''), (''flattery'', ''you're the best''),
      (''flattery'', ''no one else like you''), (''flattery'', ''only you can''),
      (''fear-pressure'', ''if you don't''), (''fear-pressure'', ''or else''),
      (''fear-pressure'', ''you will regret''), (''fear-pressure'', ''you'll regret'')]"
  by (simp add: rule_order_def MANIPULATION_RULES_def)

subsection \<open>The messages of a result, by position\<close>

lemma nth_analysis:
  assumes "i < length ms"
  shows "\<exists>g1. messages (fst (analyze_chat ms g)) ! i =
           fst (analyze_one
                 (if i = 0 then None else Some (messages (fst (analyze_chat ms g)) ! (i - 1)))
                 g1 (ms ! i))"
  using analyses_nth [OF assms, of None g] unfolding analyze_chat_messages by blast

lemma over_cond_seen:
  "seen prev = seen prev' \<Longrightarrow> over_cond prev msg = over_cond prev' msg"
  by (cases prev; cases prev') (auto simp: seen_def over_cond_def)

lemma analyze_one_seen:
  assumes "seen prev = seen prev'"
  shows "label (fst (analyze_one prev g msg)) = label (fst (analyze_one prev' g' msg))"
    and "explanation (fst (analyze_one prev g msg)) = explanation (fst (analyze_one prev' g' msg))"
proof -
  have c: "over_cond prev msg = over_cond prev' msg"
    using assms by (rule over_cond_seen)
  show "label (fst (analyze_one prev g msg)) = label (fst (analyze_one prev' g' msg))"
    using c analyze_message_label_det [of _ g g'] by (simp add: analyze_one_label)
  have "speaker (the prev) = speaker (the prev')" if "over_cond prev msg"
    using that assms by (cases prev; cases prev') (auto simp: seen_def over_cond_def)
  then show "explanation (fst (analyze_one prev g msg)) = explanation (fst (analyze_one prev' g' msg))"
    using c analyze_message_explanation_det [of _ g g'] by (simp add: analyze_one_explanation)
qed

lemma seen_analyze_one:
  "seen prev = seen prev' \<Longrightarrow>
     seen (Some (fst (analyze_one prev g msg))) = seen (Some (fst (analyze_one prev' g' msg)))"
  using analyze_one_seen(1) [of prev prev' g msg g']
  by (simp add: seen_def analyze_one_speaker)

lemma analyses_seen:
  "seen prev = seen prev' \<Longrightarrow>
     map label (analyses prev g ms) = map label (analyses prev' g' ms) \<and>
     map explanation (analyses prev g ms) = map explanation (analyses prev' g' ms)"
proof (induction ms arbitrary: prev prev' g g')
  case Nil
  then show ?case by simp
next
  case (Cons m ms)
  note s = seen_analyze_one [OF Cons.prems, of g m g']
  show ?case
    using Cons.IH [OF s] analyze_one_seen [OF Cons.prems, of g m g'] by simp
qed

lemma analyses_fields:
  "map speaker (analyses prev g ms) = map (\<lambda>m. dict_get m ''speaker'' ''Unknown'') ms \<and>
   map msg_text (analyses prev g ms) = map (\<lambda>m. dict_get m ''text'' []) ms"
  by (induction ms arbitrary: prev g) (simp_all add: analyze_one_speaker analyze_one_text)

lemma analyses_confidence:
  "a \<in> set (analyses prev g ms) \<Longrightarrow>
     (label a = ''pressured acceptance'' \<and> (\<exists>g'. confidence a = override_confidence g')) \<or>
     (label a \<noteq> ''pressured acceptance'' \<and> (\<exists>g'. confidence a = rule_confidence g'))"
proof (induction ms arbitrary: prev g)
  case Nil
  then show ?case by simp
next
  case (Cons m ms)
  show ?case
  proof (cases "a = fst (analyze_one prev g m)")
    case True
    show ?thesis
    proof (cases "over_cond prev m")
      case True
      with \<open>a = fst (analyze_one prev g m)\<close> show ?thesis
        by (auto simp: analyze_one_label analyze_one_confidence)
    next
      case False
      with \<open>a = fst (analyze_one prev g m)\<close> rule_label_not_pressured show ?thesis
        by (auto simp: analyze_one_label analyze_one_confidence)
    qed
  next
    case False
    with Cons.prems
    have "a \<in> set (analyses (Some (fst (analyze_one prev g m))) (snd (analyze_one prev g m)) ms)"
      by simp
    then show ?thesis by (rule Cons.IH)
  qed
qed

subsection \<open>Counting and rounding\<close>

lemma count_by_label:
  "length (filter (\<lambda>a. label a \<noteq> n) xs) = length (filter (\<lambda>l. l \<noteq> n) (map label xs))"
  by (induction xs) simp_all

lemma round2_unit:
  assumes "0 \<le> x" "x \<le> 1"
  shows "0 \<le> round2 x \<and> round2 x \<le> 1"
  using round2_between [of 0 x 100] assms by simp

lemma round2_one: "round2 1 = 1"
  by (simp add: round2_def round_half_even_def)

subsection \<open>Evaluated facts about the example chats\<close>

lemma first_rule_you_owe_me:
  "first_rule MANIPULATION_RULES (norm_text ''you owe me'') = Some (''guilt-tripping'', ''you owe me'')"
  by code_simp

lemma first_rule_okay_fine: "first_rule MANIPULATION_RULES (norm_text ''okay fine'') = None"
  by code_simp

lemma acceptance_okay_fine: "contains_acceptance (norm_text ''okay fine'')"
  by code_simp

lemma label_you_owe_me: "fst (fst (analyze_message ''you owe me'' g)) = ''guilt-tripping''"
  by (simp add: analyze_message_def first_rule_you_owe_me split: prod.splits)

lemma label_okay_fine: "fst (fst (analyze_message ''okay fine'' g)) = ''neutral''"
  by (simp add: analyze_message_def first_rule_okay_fine split: prod.splits)

lemma first_rule_fine: "first_rule MANIPULATION_RULES (norm_text ''fine'') = None"
  by code_simp

lemma acceptance_fine: "contains_acceptance (norm_text ''fine'')"
  by code_simp

lemma first_rule_if_you_dont:
  "first_rule MANIPULATION_RULES (norm_text ''if you don't'') = Some (''fear-pressure'', ''if you don't'')"
  by code_simp

lemma label_fine: "fst (fst (analyze_message ''fine'' g)) = ''neutral''"
  by (simp add: analyze_message_def first_rule_fine split: prod.splits)

lemma label_if_you_dont: "fst (fst (analyze_message ''if you don't'' g)) = ''fear-pressure''"
  by (simp add: analyze_message_def first_rule_if_you_dont split: prod.splits)

lemma find_after_all_best:
  "List.find (\<lambda>(lab, trig). sublist trig (norm_text ''After all, you're the best'')) rule_order
     = Some (''guilt-tripping'', ''after all'')"
  by code_simp

lemma both_triggers:
  "sublist ''after all'' (norm_text ''After all, you're the best'')"
  "sublist ''you're the best'' (norm_text ''After all, you're the best'')"
  by code_simp+

lemmas chat_ev = analyze_chat_messages analyze_one_label analyze_one_speaker over_cond_def
  label_you_owe_me label_okay_fine label_fine label_if_you_dont acceptance_okay_fine acceptance_fine

lemma labels_scenario:
  "map label (messages (fst (analyze_chat [Message ''A'' ''you owe me'', Message ''B'' ''okay fine''] g)))
     = [''guilt-tripping'', ''pressured acceptance'']"
  by (simp add: chat_ev)

lemma labels_three:
  "map label (messages (fst (analyze_chat
      [Message ''A'' ''you owe me'', Message ''B'' ''okay fine'', Message ''A'' ''fine''] g)))
     = [''guilt-tripping'', ''pressured acceptance'', ''pressured acceptance'']"
  by (simp add: chat_ev)

lemma labels_three_other:
  "map label (messages (fst (analyze_chat
      [Message ''X'' ''if you don't'', Message ''B'' ''okay fine'', Message ''A'' ''fine''] g)))
     = [''fear-pressure'', ''pressured acceptance'', ''pressured acceptance'']"
  by (simp add: chat_ev)

section \<open>The segmenter, line by line\<close>

subsection \<open>Character classes\<close>

lemma word_chars_not_space: "list_all (\<lambda>c. \<not> isspace c) word_chars"
  by code_simp

lemma isword_not_isspace: "isword c \<Longrightarrow> \<not> isspace c"
  using word_chars_not_space by (simp add: isword_def list_all_iff)

lemma colon_class [simp]: "\<not> isword CHR '':''" "\<not> isspace CHR '':''"
  by (simp_all add: isword_def isspace_def word_chars_def whitespace_chars_def)

lemma newline_class [simp]: "isspace CHR 0x0A" "islinebreak CHR 0x0A" "islinebreak CHR 0x0D"
  by (simp_all add: isspace_def islinebreak_def whitespace_chars_def linebreak_chars_def)

lemma islinebreak_isspace: "islinebreak c \<Longrightarrow> isspace c"
  by (auto simp: isspace_def islinebreak_def whitespace_chars_def linebreak_chars_def)

subsection \<open>Trimming\<close>

lemma set_str_strip: "set (str_strip s) \<subseteq> set s"
proof -
  have "set (dropWhile isspace (rev (dropWhile isspace s))) \<subseteq> set (rev (dropWhile isspace s))"
    by (auto dest: set_dropWhileD)
  also have "\<dots> \<subseteq> set s"
    by (auto dest: set_dropWhileD)
  finally show ?thesis
    by (simp add: str_strip_def)
qed

lemma str_strip_trimmed:
  assumes "str_strip s \<noteq> []"
  shows "\<not> isspace (hd (str_strip s))" and "\<not> isspace (last (str_strip s))"
proof -
  let ?t = "dropWhile isspace s"
  let ?u = "dropWhile isspace (rev ?t)"
  have u: "?u \<noteq> []"
    using assms by (simp add: str_strip_def)
  have t: "?t \<noteq> []"
  proof
    assume e: "?t = []"
    have "?u = []" unfolding e by simp
    with u show False by (simp only:)
  qed
  have "rev ?t = takeWhile isspace (rev ?t) @ ?u"
    by simp
  then have "last (rev ?t) = last ?u"
    using u by (metis last_appendR)
  then have "last ?u = hd ?t"
    using t by (simp add: last_rev)
  moreover have "\<not> isspace (hd ?t)"
    using t by (rule hd_dropWhile)
  ultimately show "\<not> isspace (hd (str_strip s))"
    using u by (simp add: str_strip_def hd_rev)
  have "\<not> isspace (hd ?u)"
    using u by (rule hd_dropWhile)
  then show "\<not> isspace (last (str_strip s))"
    using u by (simp add: str_strip_def last_rev)
qed

subsection \<open>Lines\<close>

lemma splitlines_from_no_break:
  "\<lbrakk>\<forall>c \<in> set cur. \<not> islinebreak c; l \<in> set (splitlines_from cur s)\<rbrakk>
     \<Longrightarrow> \<forall>c \<in> set l. \<not> islinebreak c"
proof (induction cur s rule: splitlines_from.induct)
  case (1 cur)
  then show ?case by (simp split: if_splits)
next
  case (2 cur c)
  then show ?case by (simp split: if_splits)
next
  case (3 cur c d cs)
  have nil: "\<forall>c \<in> set []. \<not> islinebreak c"
    by simp
  show ?case
  proof (cases "islinebreak c")
    case False
    from "3.prems"(1) False have "\<forall>x \<in> set (cur @ [c]). \<not> islinebreak x"
      by simp
    moreover from "3.prems"(2) False have "l \<in> set (splitlines_from (cur @ [c]) (d # cs))"
      by simp
    ultimately show ?thesis
      by (rule "3.IH"(3) [OF False])
  next
    case brk: True
    show ?thesis
    proof (cases "c = CHR 0x0D \<and> d = CHR 0x0A")
      case True
      from "3.prems"(2) brk True have "l = cur \<or> l \<in> set (splitlines_from [] cs)"
        by simp
      then show ?thesis
      proof
        assume "l = cur"
        with "3.prems"(1) show ?thesis by simp
      next
        assume "l \<in> set (splitlines_from [] cs)"
        with nil show ?thesis
          by (rule "3.IH"(1) [OF brk True])
      qed
    next
      case False
      from "3.prems"(2) brk False have "l = cur \<or> l \<in> set (splitlines_from [] (d # cs))"
        by (simp split: if_splits)
      then show ?thesis
      proof
        assume "l = cur"
        with "3.prems"(1) show ?thesis by simp
      next
        assume "l \<in> set (splitlines_from [] (d # cs))"
        with nil show ?thesis
          by (rule "3.IH"(2) [OF brk False])
      qed
    qed
  qed
qed

lemma splitlines_from_concat:
  "concat (splitlines_from cur s) = cur @ filter (\<lambda>c. \<not> islinebreak c) s"
  by (induction cur s rule: splitlines_from.induct) simp_all

lemma splitlines_no_break: "l \<in> set (splitlines s) \<Longrightarrow> \<forall>c \<in> set l. \<not> islinebreak c"
  unfolding splitlines_def by (rule splitlines_from_no_break [of "[]"]) simp_all

lemma splitlines_concat: "concat (splitlines s) = filter (\<lambda>c. \<not> islinebreak c) s"
  by (simp add: splitlines_def splitlines_from_concat)

lemma splitlines_from_single:
  "\<lbrakk>\<forall>c \<in> set s. \<not> islinebreak c; cur @ s \<noteq> []\<rbrakk> \<Longrightarrow> splitlines_from cur s = [cur @ s]"
  by (induction cur s rule: splitlines_from.induct) simp_all

lemma splitlines_single:
  "\<lbrakk>\<forall>c \<in> set s. \<not> islinebreak c; s \<noteq> []\<rbrakk> \<Longrightarrow> splitlines s = [s]"
  unfolding splitlines_def using splitlines_from_single [of s "[]"] by simp

subsection \<open>The loop of the segmenter\<close>

lemma preprocess_loop_map:
  "preprocess_loop ls acc =
     acc @ map (\<lambda>line. case speaker_pattern_match line of
                         Some (sp, tx) \<Rightarrow> Message sp tx
                       | None \<Rightarrow> Message ''Unknown'' line)
             (filter (\<lambda>l. l \<noteq> []) (map str_strip ls))"
  by (induction ls arbitrary: acc) (simp_all add: Let_def split: option.splits)

subsection \<open>The pattern on a trimmed line\<close>

lemma dot_plus_end_Nil [simp]: "dot_plus_end [] = None"
  by (simp add: dot_plus_end_def)

lemma dot_plus_end_no_newline:
  assumes "r \<noteq> []" "CHR 0x0A \<notin> set r"
  shows "dot_plus_end r = Some r"
proof -
  have t: "takeWhile (\<lambda>c. c \<noteq> CHR 0x0A) r = r"
    using assms(2) by (auto simp: takeWhile_eq_all_conv)
  have d: "dropWhile (\<lambda>c. c \<noteq> CHR 0x0A) r = []"
    using assms(2) by (auto simp: dropWhile_eq_Nil_conv)
  show ?thesis
    unfolding dot_plus_end_def t d using assms(1) by (simp add: Let_def)
qed

lemma spaces_then_text_top:
  "dot_plus_end (drop k r) = Some t \<Longrightarrow> spaces_then_text k r = Some t"
  by (cases k) simp_all

lemma drop_takeWhile_length: "drop (length (takeWhile P xs)) xs = dropWhile P xs"
  by (induction xs) simp_all

lemma match_trimmed_compute:
  assumes ne: "line \<noteq> []" and hd: "\<not> isspace (hd line)" and lst: "\<not> isspace (last line)"
    and nl: "CHR 0x0A \<notin> set line"
  shows "speaker_pattern_match line =
     (if takeWhile isword line = [] then None
      else (case dropWhile isspace (dropWhile isword line) of
              [] \<Rightarrow> None
            | c # rest0 \<Rightarrow>
                if c = CHR '':'' \<and> rest0 \<noteq> []
                then Some (takeWhile isword line, dropWhile isspace rest0) else None))"
proof -
  define tok where "tok = takeWhile isword line"
  define s2 where "s2 = dropWhile isspace (dropWhile isword line)"
  have s1: "dropWhile isspace line = line"
    using ne hd by (cases line) simp_all
  have m: "speaker_pattern_match line =
      (if tok = [] then None
       else (case s2 of
               [] \<Rightarrow> None
             | c # rest \<Rightarrow>
                 if c = CHR '':''
                 then map_option (\<lambda>t. (tok, t))
                        (spaces_then_text (length (takeWhile isspace rest)) rest)
                 else None))"
    unfolding speaker_pattern_match_def s1 tok_def s2_def by (simp only: Let_def)
  have goal: "(if tok = [] then None
       else (case s2 of
               [] \<Rightarrow> None
             | c # rest \<Rightarrow>
                 if c = CHR '':''
                 then map_option (\<lambda>t. (tok, t))
                        (spaces_then_text (length (takeWhile isspace rest)) rest)
                 else None)) =
     (if tok = [] then None
      else (case s2 of
              [] \<Rightarrow> None
            | c # rest0 \<Rightarrow>
                if c = CHR '':'' \<and> rest0 \<noteq> []
                then Some (tok, dropWhile isspace rest0) else None))"
  proof (cases s2)
    case Nil
    then show ?thesis by simp
  next
    case (Cons c rest0)
    have "line = takeWhile isword line @ takeWhile isspace (dropWhile isword line) @ s2"
      unfolding s2_def by (metis takeWhile_dropWhile_id)
    then have split: "line = takeWhile isword line @ takeWhile isspace (dropWhile isword line) @ c # rest0"
      unfolding Cons .
    have nl0: "CHR 0x0A \<notin> set rest0"
      using nl split by (metis Un_iff list.set_intros(2) set_append)
    show ?thesis
    proof (cases "rest0 = []")
      case True
      then show ?thesis
        by (simp add: Cons)
    next
      case False
      have "last line = last rest0"
        using split False by (metis append_is_Nil_conv last_appendR last_ConsR list.distinct(1))
      with lst have "\<not> isspace (last rest0)"
        by simp
      then have "dropWhile isspace rest0 \<noteq> []"
        using False by (metis dropWhile_eq_Nil_conv last_in_set)
      moreover have "CHR 0x0A \<notin> set (dropWhile isspace rest0)"
        using nl0 by (meson set_dropWhileD)
      ultimately have "dot_plus_end (dropWhile isspace rest0) = Some (dropWhile isspace rest0)"
        by (rule dot_plus_end_no_newline)
      then have "spaces_then_text (length (takeWhile isspace rest0)) rest0 =
          Some (dropWhile isspace rest0)"
        by (intro spaces_then_text_top) (simp only: drop_takeWhile_length)
      then show ?thesis
        using False by (simp add: Cons)
    qed
  qed
  show ?thesis
    unfolding m goal unfolding tok_def s2_def ..
qed

lemma span_append:
  assumes "list_all P xs" "ys = [] \<or> \<not> P (hd ys)"
  shows "takeWhile P (xs @ ys) = xs" and "dropWhile P (xs @ ys) = ys"
proof -
  have t: "takeWhile P ys = []" and d: "dropWhile P ys = ys"
    using assms(2) by (cases ys; auto)+
  show "takeWhile P (xs @ ys) = xs"
    using assms(1) t by (induction xs) simp_all
  show "dropWhile P (xs @ ys) = ys"
    using assms(1) d by (induction xs) simp_all
qed

lemma trimmed_tail:
  assumes "line = pre @ c # rest0" "rest0 \<noteq> []" "\<not> isspace (last line)"
  shows "dropWhile isspace rest0 \<noteq> []" and "\<not> isspace (hd (dropWhile isspace rest0))"
proof -
  have "last line = last rest0"
    using assms(1,2) by simp
  with assms(3) have "\<not> isspace (last rest0)"
    by simp
  then show "dropWhile isspace rest0 \<noteq> []"
    using assms(2) by (metis dropWhile_eq_Nil_conv last_in_set)
  then show "\<not> isspace (hd (dropWhile isspace rest0))"
    by (rule hd_dropWhile)
qed

lemma match_trimmed_iff:
  assumes ne: "line \<noteq> []" and hd: "\<not> isspace (hd line)" and lst: "\<not> isspace (last line)"
    and nl: "CHR 0x0A \<notin> set line"
  shows "(speaker_pattern_match line = Some (tok, rest)) = spec_speaker_line line tok rest"
proof
  assume m: "speaker_pattern_match line = Some (tok, rest)"
  define s2 where "s2 = dropWhile isspace (dropWhile isword line)"
  note c = match_trimmed_compute [OF ne hd lst nl, folded s2_def]
  from m c have tok0: "takeWhile isword line \<noteq> []"
    by (auto split: if_splits)
  from m c tok0 obtain rest0 where s2: "s2 = CHR '':'' # rest0" and r0: "rest0 \<noteq> []"
    and tok: "tok = takeWhile isword line" and rest: "rest = dropWhile isspace rest0"
    by (cases s2) (auto split: if_splits)
  let ?w2 = "takeWhile isspace (dropWhile isword line)"
  let ?w3 = "takeWhile isspace rest0"
  have "line = takeWhile isword line @ ?w2 @ s2"
    unfolding s2_def by (metis takeWhile_dropWhile_id)
  then have l1: "line = tok @ ?w2 @ CHR '':'' # rest0"
    unfolding s2 tok .
  have "rest0 = ?w3 @ rest"
    unfolding rest by simp
  with l1 have l2: "line = [] @ tok @ ?w2 @ '':'' @ ?w3 @ rest"
    by simp
  have w: "list_all isword tok" "list_all isspace ?w2" "list_all isspace ?w3"
    unfolding tok by (auto simp: list_all_iff dest: set_takeWhileD)
  have l1': "line = (tok @ ?w2) @ CHR '':'' # rest0"
    using l1 by simp
  have "rest \<noteq> []" "\<not> isspace (hd rest)"
    unfolding rest using trimmed_tail [OF l1' r0 lst] by blast+
  with l2 w tok0 tok show "spec_speaker_line line tok rest"
    unfolding spec_speaker_line_def by (intro exI [of _ "[]"] exI [of _ ?w2] exI [of _ ?w3]) simp
next
  assume "spec_speaker_line line tok rest"
  then obtain w1 w2 w3 where l: "line = w1 @ tok @ w2 @ '':'' @ w3 @ rest"
    and w1: "list_all isspace w1" and tok: "tok \<noteq> []" "list_all isword tok"
    and w2: "list_all isspace w2" and w3: "list_all isspace w3"
    and rest: "rest \<noteq> []" "\<not> isspace (hd rest)"
    unfolding spec_speaker_line_def by blast
  have "w1 = []"
  proof (rule ccontr)
    assume "w1 \<noteq> []"
    then have "hd line = hd w1" "hd w1 \<in> set w1"
      using l by simp_all
    with w1 hd show False
      by (simp add: list_all_iff)
  qed
  with l have l: "line = tok @ (w2 @ CHR '':'' # w3 @ rest)"
    by simp
  have "\<not> isword (hd (w2 @ CHR '':'' # w3 @ rest))"
  proof (cases w2)
    case Nil
    then show ?thesis by simp
  next
    case (Cons a as)
    with w2 have "isspace a" by simp
    with Cons show ?thesis
      using isword_not_isspace [of a] by auto
  qed
  then have t: "takeWhile isword line = tok" and d: "dropWhile isword line = w2 @ CHR '':'' # w3 @ rest"
    unfolding l using span_append [OF tok(2), of "w2 @ CHR '':'' # w3 @ rest"] by blast+
  have d2: "dropWhile isspace (dropWhile isword line) = CHR '':'' # w3 @ rest"
    unfolding d using span_append(2) [OF w2, of "CHR '':'' # w3 @ rest"] by simp
  have d3: "dropWhile isspace (w3 @ rest) = rest"
    using span_append(2) [OF w3, of rest] rest(2) by simp
  show "speaker_pattern_match line = Some (tok, rest)"
    unfolding match_trimmed_compute [OF ne hd lst nl] t d2
    using tok(1) rest(1) d3 by simp
qed

lemma chat_line_trimmed:
  assumes "line \<in> set (filter (\<lambda>l. l \<noteq> []) (map str_strip (splitlines s)))"
  shows "line \<noteq> []" "\<not> isspace (hd line)" "\<not> isspace (last line)" "CHR 0x0A \<notin> set line"
proof -
  from assms obtain raw where raw: "raw \<in> set (splitlines s)" and line: "line = str_strip raw"
    and ne: "line \<noteq> []"
    by auto
  show "line \<noteq> []"
    by (rule ne)
  show "\<not> isspace (hd line)" "\<not> isspace (last line)"
    using str_strip_trimmed [of raw] ne unfolding line by blast+
  have "\<not> islinebreak c" if "c \<in> set line" for c
    using that splitlines_no_break [OF raw] set_str_strip [of raw] unfolding line by blast
  then show "CHR 0x0A \<notin> set line"
    using newline_class(2) by blast
qed

lemma example_lines:
  "filter (\<lambda>l. l \<noteq> [])
     (map str_strip
        (splitlines (''A: you owe me'' @ [CHR 0x0A, CHR 0x0A] @ ''  hello there '' @ [CHR 0x0A]
                     @ ''B :ok'')))
   = [''A: you owe me'', ''hello there'', ''B :ok'']"
  by code_simp

lemma example_speaker_lines:
  "spec_speaker_line ''A: you owe me'' ''A'' ''you owe me''"
  "spec_speaker_line ''B :ok'' ''B'' ''ok''"
proof -
  show "spec_speaker_line ''A: you owe me'' ''A'' ''you owe me''"
    unfolding spec_speaker_line_def
    by (intro exI [of _ "[]"] exI [of _ "'' ''"])
      (simp add: isspace_def isword_def whitespace_chars_def word_chars_def)
  show "spec_speaker_line ''B :ok'' ''B'' ''ok''"
    unfolding spec_speaker_line_def
    by (rule exI [of _ "[]"], rule exI [of _ "'' ''"], rule exI [of _ "[]"])
      (simp add: isspace_def isword_def whitespace_chars_def word_chars_def)
qed

lemma example_no_speaker_line: "\<not> spec_speaker_line ''hello there'' tok rest"
proof
  assume "spec_speaker_line ''hello there'' tok rest"
  then obtain w1 w2 w3 where "''hello there'' = w1 @ tok @ w2 @ '':'' @ w3 @ rest"
    unfolding spec_speaker_line_def by blast
  then have "set ''hello there'' = set (w1 @ tok @ w2 @ '':'' @ w3 @ rest)"
    by (rule arg_cong)
  then have "CHR '':'' \<in> set ''hello there''"
    by simp
  then show False
    by simp
qed

lemma example_bare_label:
  "list_all isword ''Alice''" "str_strip ''  Alice:  '' = ''Alice'' @ '':''"
  "list_all (\<lambda>c. \<not> islinebreak c) ''  Alice:  ''"
  by code_simp+

subsection \<open>The normal form of a normalized text\<close>

lemma case_table:
  "list_all (\<lambda>c. lower_char c \<in> set lower_chars) upper_chars"
  "list_all (\<lambda>c. c \<notin> set upper_chars \<and> \<not> isspace c) lower_chars"
  "list_all (\<lambda>c. \<not> isspace c) upper_chars"
  "length upper_chars = length lower_chars"
  by code_simp+

lemma lower_char_upper: "c \<in> set upper_chars \<Longrightarrow> lower_char c \<in> set lower_chars"
  using case_table(1) by (simp add: list_all_iff)

lemma lower_char_other: "c \<notin> set upper_chars \<Longrightarrow> lower_char c = c"
proof -
  assume "c \<notin> set upper_chars"
  then have "map_of (zip upper_chars lower_chars) c = None"
    using case_table(4) by (simp add: map_of_zip_is_None)
  then show ?thesis
    by (simp add: lower_char_def)
qed

lemma lower_char_not_upper: "lower_char c \<notin> set upper_chars"
proof (cases "c \<in> set upper_chars")
  case True
  then show ?thesis
    using lower_char_upper [of c] case_table(2) by (simp add: list_all_iff)
next
  case False
  then show ?thesis
    by (simp add: lower_char_other)
qed

lemma isspace_lower_char: "isspace (lower_char c) = isspace c"
proof (cases "c \<in> set upper_chars")
  case True
  then have "\<not> isspace c" "\<not> isspace (lower_char c)"
    using lower_char_upper [of c] case_table(2,3) by (simp_all add: list_all_iff)
  then show ?thesis
    by simp
next
  case False
  then show ?thesis
    by (simp add: lower_char_other)
qed

lemma space_class [simp]: "isspace CHR '' ''" "CHR '' '' \<notin> set upper_chars"
  by code_simp+

lemma re_sub_spaces_set: "c \<in> set (re_sub_spaces s) \<Longrightarrow> c = CHR '' '' \<or> (c \<in> set s \<and> \<not> isspace c)"
proof (induction s rule: re_sub_spaces.induct)
  case 1
  then show ?case by simp
next
  case (2 d ds)
  show ?case
  proof (cases "isspace d")
    case True
    with 2 show ?thesis
      by (auto dest: set_dropWhileD)
  next
    case False
    with 2 show ?thesis
      by auto
  qed
qed

lemma re_sub_spaces_hd:
  "s \<noteq> [] \<Longrightarrow>
     re_sub_spaces s \<noteq> [] \<and> hd (re_sub_spaces s) = (if isspace (hd s) then CHR '' '' else hd s)"
  by (cases s) simp_all

lemma re_sub_spaces_last:
  "\<lbrakk>s \<noteq> []; \<not> isspace (last s)\<rbrakk> \<Longrightarrow> last (re_sub_spaces s) = last s"
proof (induction s rule: re_sub_spaces.induct)
  case 1
  then show ?case by simp
next
  case (2 d ds)
  show ?case
  proof (cases "ds = []")
    case True
    with "2.prems" show ?thesis by simp
  next
    case ds: False
    with "2.prems" have l: "\<not> isspace (last ds)"
      by simp
    show ?thesis
    proof (cases "isspace d")
      case False
      with 2 ds l show ?thesis
        using re_sub_spaces_hd [of ds] by simp
    next
      case True
      have ne: "dropWhile isspace ds \<noteq> []"
        using ds l by (metis dropWhile_eq_Nil_conv last_in_set)
      have "ds = takeWhile isspace ds @ dropWhile isspace ds"
        by simp
      then have "last ds = last (dropWhile isspace ds)"
        using ne by (metis last_appendR)
      with l have l': "\<not> isspace (last (dropWhile isspace ds))"
        by simp
      have r: "re_sub_spaces (dropWhile isspace ds) \<noteq> []"
        using re_sub_spaces_hd [OF ne] by blast
      have "last (re_sub_spaces (d # ds)) = last (re_sub_spaces (dropWhile isspace ds))"
        using True r by simp
      also have "\<dots> = last (dropWhile isspace ds)"
        using "2.IH"(1) [OF True ne l'] .
      also have "\<dots> = last (d # ds)"
        using ds \<open>last ds = last (dropWhile isspace ds)\<close> by simp
      finally show ?thesis .
    qed
  qed
qed

lemma re_sub_spaces_no_double:
  "re_sub_spaces s \<noteq> xs @ CHR '' '' # CHR '' '' # ys"
proof (induction s arbitrary: xs rule: re_sub_spaces.induct)
  case 1
  then show ?case by simp
next
  case (2 d ds)
  show ?case
  proof (cases "isspace d")
    case False
    then have d: "d \<noteq> CHR '' ''"
      by auto
    show ?thesis
    proof (cases xs)
      case Nil
      with False d show ?thesis by simp
    next
      case (Cons x xs')
      with False "2.IH"(2) [OF False, of xs'] show ?thesis by simp
    qed
  next
    case True
    let ?r = "re_sub_spaces (dropWhile isspace ds)"
    show ?thesis
    proof (cases xs)
      case Nil
      have "?r \<noteq> CHR '' '' # ys"
      proof (cases "dropWhile isspace ds = []")
        case True
        show ?thesis unfolding True by simp
      next
        case False
        then have "\<not> isspace (hd (dropWhile isspace ds))"
          by (rule hd_dropWhile)
        with re_sub_spaces_hd [OF False] have "hd ?r \<noteq> CHR '' ''"
          by auto
        then show ?thesis
          by auto
      qed
      with True Nil show ?thesis by simp
    next
      case (Cons x xs')
      with True "2.IH"(1) [OF True, of xs'] show ?thesis by simp
    qed
  qed
qed

lemma norm_text_normal_form:
  "(\<forall>c \<in> set (norm_text tx). c \<notin> set upper_chars \<and> (isspace c \<longrightarrow> c = CHR '' ''))
   \<and> (norm_text tx = [] \<or>
        (\<not> isspace (hd (norm_text tx)) \<and> \<not> isspace (last (norm_text tx))))
   \<and> \<not> sublist [CHR '' '', CHR '' ''] (norm_text tx)"
proof -
  let ?t = "str_lower (str_strip tx)"
  have chars: "c \<notin> set upper_chars \<and> (isspace c \<longrightarrow> c = CHR '' '')"
    if "c \<in> set (norm_text tx)" for c
  proof -
    from that have "c = CHR '' '' \<or> (c \<in> set ?t \<and> \<not> isspace c)"
      unfolding norm_text_def by (rule re_sub_spaces_set)
    then show ?thesis
      using lower_char_not_upper by (auto simp: str_lower_def)
  qed
  have ends: "\<not> isspace (hd (norm_text tx)) \<and> \<not> isspace (last (norm_text tx))"
    if "norm_text tx \<noteq> []"
  proof -
    from that have s: "str_strip tx \<noteq> []"
      by (auto simp: norm_text_def str_lower_def)
    then have t: "?t \<noteq> []"
      by (simp add: str_lower_def)
    have "\<not> isspace (hd ?t)" "\<not> isspace (last ?t)"
      using str_strip_trimmed [OF s] s
      by (simp_all add: str_lower_def hd_map last_map isspace_lower_char)
    then show ?thesis
      using re_sub_spaces_hd [OF t] re_sub_spaces_last [OF t] by (simp add: norm_text_def)
  qed
  have "\<not> sublist [CHR '' '', CHR '' ''] (norm_text tx)"
    using re_sub_spaces_no_double [of ?t] by (auto simp: sublist_def norm_text_def)
  with chars ends show ?thesis
    by blast
qed

section \<open>The generator across calls\<close>

subsection \<open>The generator after a run\<close>

lemma analyze_one_state_label:
  "snd (analyze_one prev g m) =
     (if label (fst (analyze_one prev g m)) = ''pressured acceptance'' then stl (stl g) else stl g)"
  using rule_label_not_pressured [of "dict_get m ''text'' []" g]
  by (simp add: analyze_one_state analyze_one_label)

lemma analyses_nth_draw:
  "i < length ms \<Longrightarrow>
     analyses prev g ms ! i =
       fst (analyze_one
             (if i = 0 then prev else Some (analyses prev g ms ! (i - 1)))
             (sdrop (i + length (filter (\<lambda>a. label a = ''pressured acceptance'')
                                   (take i (analyses prev g ms)))) g)
             (ms ! i))"
proof (induction ms arbitrary: prev g i)
  case Nil
  then show ?case by simp
next
  case (Cons m ms)
  let ?a = "fst (analyze_one prev g m)"
  let ?g = "snd (analyze_one prev g m)"
  show ?case
  proof (cases i)
    case 0
    then show ?thesis by simp
  next
    case (Suc j)
    with Cons.prems have j: "j < length ms"
      by simp
    have p: "(if j = 0 then Some ?a else Some (analyses (Some ?a) ?g ms ! (j - 1)))
        = Some ((?a # analyses (Some ?a) ?g ms) ! j)"
      by (cases j) simp_all
    have d: "sdrop (j + length (filter (\<lambda>a. label a = ''pressured acceptance'')
                                 (take j (analyses (Some ?a) ?g ms)))) ?g
        = sdrop (Suc j + length (filter (\<lambda>a. label a = ''pressured acceptance'')
                                 (?a # take j (analyses (Some ?a) ?g ms)))) g"
      by (simp add: analyze_one_state_label)
    show ?thesis
      using Cons.IH [OF j, of "Some ?a" ?g] unfolding p d by (simp add: Suc)
  qed
qed

lemma analyses_nth_confidence:
  assumes "i < length ms"
  shows "confidence (analyses prev g ms ! i) =
     (if label (analyses prev g ms ! i) = ''pressured acceptance''
      then override_confidence
             (sdrop (i + length (filter (\<lambda>a. label a = ''pressured acceptance'')
                                   (take i (analyses prev g ms))) + 1) g)
      else rule_confidence
             (sdrop (i + length (filter (\<lambda>a. label a = ''pressured acceptance'')
                                   (take i (analyses prev g ms)))) g))"
proof -
  let ?p = "i + length (filter (\<lambda>a. label a = ''pressured acceptance'')
                         (take i (analyses prev g ms)))"
  let ?prev = "if i = 0 then prev else Some (analyses prev g ms ! (i - 1))"
  have n: "analyses prev g ms ! i = fst (analyze_one ?prev (sdrop ?p g) (ms ! i))"
    using analyses_nth_draw [OF assms] .
  have l: "label (fst (analyze_one ?prev (sdrop ?p g) (ms ! i))) = ''pressured acceptance''
      \<longleftrightarrow> over_cond ?prev (ms ! i)"
    by (simp add: analyze_one_label rule_label_not_pressured)
  have c: "confidence (fst (analyze_one ?prev (sdrop ?p g) (ms ! i))) =
      (if over_cond ?prev (ms ! i) then override_confidence (sdrop (?p + 1) g)
       else rule_confidence (sdrop ?p g))"
    by (simp add: analyze_one_confidence)
  show ?thesis
    unfolding n l c ..
qed

lemma foldl_chat_step_gen:
  "gen (foldl chat_step st ms) =
     sdrop (length ms
            + length (filter (\<lambda>a. label a = ''pressured acceptance'')
                        (analyses (prev_analysis st) (gen st) ms)))
       (gen st)"
proof (induction ms arbitrary: st)
  case Nil
  then show ?case by simp
next
  case (Cons m ms)
  show ?case
    by (simp add: Cons.IH [of "chat_step st m"])
      (simp add: chat_step_analyze_one analyze_one_state_label)
qed

lemma analyze_chat_state:
  "snd (analyze_chat ms g) =
     sdrop (length ms
            + length (filter (\<lambda>a. label a = ''pressured acceptance'')
                        (messages (fst (analyze_chat ms g)))))
       g"
  by (simp add: analyze_chat_def Let_def foldl_chat_step_gen foldl_chat_step_analyzed)

lemma analyze_rejects:
  "chat = [] \<or> str_strip chat = [] \<Longrightarrow>
     analyze chat g = (Inl (HTTPException 400 ''Empty chat text provided.''), g)"
  by (simp add: analyze_def)

lemma analyze_accepts:
  "\<not> (chat = [] \<or> str_strip chat = []) \<Longrightarrow>
     analyze chat g =
       (Inr (fst (analyze_chat (preprocess_chat chat) g)), snd (analyze_chat (preprocess_chat chat) g))"
  by (simp add: analyze_def split: prod.splits)

lemma analyze_chat_deterministic_part:
  "(map (\<lambda>a. (speaker a, msg_text a, label a, explanation a)) (messages (fst (analyze_chat ms g))),
    influence_score (fst (analyze_chat ms g)))
   = (map (\<lambda>a. (speaker a, msg_text a, label a, explanation a)) (messages (fst (analyze_chat ms g'))),
      influence_score (fst (analyze_chat ms g')))"
proof -
  have same: "map label (analyses None g ms) = map label (analyses None g' ms) \<and>
      map explanation (analyses None g ms) = map explanation (analyses None g' ms)"
    by (rule analyses_seen) simp
  then have score: "influence_score (fst (analyze_chat ms g)) = influence_score (fst (analyze_chat ms g'))"
    by (simp add: analyze_chat_score count_by_label)
  have len: "length (analyses None g ms) = length (analyses None g' ms)"
    by (simp add: length_analyses)
  have "map (\<lambda>a. (speaker a, msg_text a, label a, explanation a)) (analyses None g ms)
      = map (\<lambda>a. (speaker a, msg_text a, label a, explanation a)) (analyses None g' ms)"
  proof (rule nth_equalityI)
    show "length (map (\<lambda>a. (speaker a, msg_text a, label a, explanation a)) (analyses None g ms))
        = length (map (\<lambda>a. (speaker a, msg_text a, label a, explanation a)) (analyses None g' ms))"
      using len by simp
  next
    fix i
    assume "i < length (map (\<lambda>a. (speaker a, msg_text a, label a, explanation a)) (analyses None g ms))"
    then have i: "i < length (analyses None g ms)" "i < length (analyses None g' ms)"
      using len by simp_all
    have "f (analyses None g ms ! i) = f (analyses None g' ms ! i)"
      if "map f (analyses None g ms) = map f (analyses None g' ms)" for f :: "analysis \<Rightarrow> string"
      using that i by (metis nth_map)
    then have "speaker (analyses None g ms ! i) = speaker (analyses None g' ms ! i)"
      "msg_text (analyses None g ms ! i) = msg_text (analyses None g' ms ! i)"
      "label (analyses None g ms ! i) = label (analyses None g' ms ! i)"
      "explanation (analyses None g ms ! i) = explanation (analyses None g' ms ! i)"
      using same analyses_fields [of None g ms] analyses_fields [of None g' ms] by simp_all
    then show "map (\<lambda>a. (speaker a, msg_text a, label a, explanation a)) (analyses None g ms) ! i
        = map (\<lambda>a. (speaker a, msg_text a, label a, explanation a)) (analyses None g' ms) ! i"
      using i by simp
  qed
  with score show ?thesis
    by (simp add: analyze_chat_messages)
qed

subsection \<open>Two requests, one generator\<close>

lemma example_hi:
  "splitlines ''A: hi'' = [''A: hi'']" "str_strip ''A: hi'' = ''A: hi''"
  "speaker_pattern_match ''A: hi'' = Some (''A'', ''hi'')"
  "first_rule MANIPULATION_RULES (norm_text ''hi'') = None"
  by code_simp+

lemma example_hi_yo:
  "splitlines (''A: hi'' @ [CHR 0x0A] @ ''B: yo'') = [''A: hi'', ''B: yo'']"
  "str_strip (''A: hi'' @ [CHR 0x0A] @ ''B: yo'') = ''A: hi'' @ [CHR 0x0A] @ ''B: yo''"
  "str_strip ''B: yo'' = ''B: yo''"
  "speaker_pattern_match ''B: yo'' = Some (''B'', ''yo'')"
  "first_rule MANIPULATION_RULES (norm_text ''yo'') = None"
  by code_simp+

lemma preprocess_hi: "preprocess_chat ''A: hi'' = [Message ''A'' ''hi'']"
  by (simp add: preprocess_chat_def example_hi)

lemma preprocess_hi_yo:
  "preprocess_chat (''A: hi'' @ [CHR 0x0A] @ ''B: yo'') = [Message ''A'' ''hi'', Message ''B'' ''yo'']"
  unfolding preprocess_chat_def example_hi_yo(1) by (simp add: example_hi example_hi_yo)

lemma label_hi_yo:
  "fst (fst (analyze_message ''hi'' g)) = ''neutral''"
  "fst (fst (analyze_message ''yo'' g)) = ''neutral''"
  by (simp_all add: analyze_message_def example_hi example_hi_yo split: prod.splits)

lemma no_acceptance_hi: "\<not> contains_acceptance (norm_text ''hi'')"
  by code_simp

lemma labels_replicate_hi:
  "map label (analyses prev g (replicate n (Message sp ''hi''))) = replicate n ''neutral''"
  by (induction n arbitrary: prev g)
    (simp_all add: analyze_one_label over_cond_def no_acceptance_hi label_hi_yo)

lemma labels_hi: "map label (messages (fst (analyze_chat [Message ''A'' ''hi''] g))) = [''neutral'']"
  by (simp add: analyze_chat_messages analyze_one_label over_cond_def label_hi_yo)

lemma labels_hi_yo:
  "map label (messages (fst (analyze_chat [Message ''A'' ''hi'', Message ''B'' ''yo''] g)))
     = [''neutral'', ''neutral'']"
  by (simp add: analyze_chat_messages analyze_one_label over_cond_def label_hi_yo)

lemma count_pressured:
  "length (filter (\<lambda>a. label a = n) xs) = length (filter (\<lambda>l. l = n) (map label xs))"
  by (induction xs) simp_all

lemma state_after_hi:
  "snd (analyze ''A: hi'' g) = stl g"
proof -
  have "\<not> (''A: hi'' = [] \<or> str_strip ''A: hi'' = [])"
    by (simp add: example_hi)
  then show ?thesis
    by (simp add: analyze_accepts preprocess_hi analyze_chat_state count_pressured labels_hi)
qed

lemma state_after_hi_yo:
  "snd (analyze (''A: hi'' @ [CHR 0x0A] @ ''B: yo'') g) = stl (stl g)"
proof -
  have ok: "\<not> (''A: hi'' @ [CHR 0x0A] @ ''B: yo'' = [] \<or>
      str_strip (''A: hi'' @ [CHR 0x0A] @ ''B: yo'') = [])"
    unfolding example_hi_yo(2) by simp
  show ?thesis
    unfolding analyze_accepts [OF ok] preprocess_hi_yo
    by (simp add: analyze_chat_state count_pressured labels_hi_yo numeral_2_eq_2)
qed

lemma confidence_hi:
  "map confidence (messages (projr (fst (analyze ''A: hi'' g)))) = [rule_confidence g]"
proof -
  have "\<not> (''A: hi'' = [] \<or> str_strip ''A: hi'' = [])"
    by (simp add: example_hi)
  then show ?thesis
    by (simp add: analyze_accepts preprocess_hi analyze_chat_messages analyze_one_confidence
        over_cond_def)
qed

section \<open>The claims\<close>

text \<open>
  C1. In every message sequence the pressured-acceptance override fires on a message
  exactly when three conditions hold together: the normalized text of the message
  contains one of the acceptance keywords as a substring, a previous analyzed message
  exists and its final label is not \<open>neutral\<close>, and the speaker of that previous
  message is not the speaker of this one. When it fires the explanation names the
  previous speaker; when any of the three conditions fails, the label and the explanation
  are those of the rule-based classifier.
\<close>

theorem override_iff_three_conditions:
  assumes "i < length ms"
  shows
    "(label (messages (fst (analyze_chat ms g)) ! i) = ''pressured acceptance'') =
       ((\<exists>k \<in> set ACCEPTANCE_KEYWORDS. sublist k (norm_text (dict_get (ms ! i) ''text'' []))) \<and>
        0 < i \<and>
        label (messages (fst (analyze_chat ms g)) ! (i - 1)) \<noteq> ''neutral'' \<and>
        speaker (messages (fst (analyze_chat ms g)) ! (i - 1)) \<noteq> dict_get (ms ! i) ''speaker'' ''Unknown'')
     \<and>
     (label (messages (fst (analyze_chat ms g)) ! i) = ''pressured acceptance'' \<longrightarrow>
        explanation (messages (fst (analyze_chat ms g)) ! i) =
          ''Message contains acceptance keywords and was preceded by a manipulative message from ''
          @ speaker (messages (fst (analyze_chat ms g)) ! (i - 1))
          @ ''. This suggests pressured acceptance.'')
     \<and>
     (label (messages (fst (analyze_chat ms g)) ! i) \<noteq> ''pressured acceptance'' \<longrightarrow>
        label (messages (fst (analyze_chat ms g)) ! i) =
          fst (fst (analyze_message (dict_get (ms ! i) ''text'' []) g')) \<and>
        explanation (messages (fst (analyze_chat ms g)) ! i) =
          snd (snd (fst (analyze_message (dict_get (ms ! i) ''text'' []) g'))))
     \<and> ACCEPTANCE_KEYWORDS =
         [''okay'', ''ok'', ''fine'', ''i'll'', ''i will'', ''sure'', ''alright'', ''accepted'',
          ''yes'']"
proof -
  let ?out = "messages (fst (analyze_chat ms g))"
  let ?prev = "if i = 0 then None else Some (?out ! (i - 1))"
  obtain g1 where out: "?out ! i = fst (analyze_one ?prev g1 (ms ! i))"
    using nth_analysis [OF assms] by blast
  have cond: "over_cond ?prev (ms ! i) =
      ((\<exists>k \<in> set ACCEPTANCE_KEYWORDS. sublist k (norm_text (dict_get (ms ! i) ''text'' []))) \<and>
        0 < i \<and> label (?out ! (i - 1)) \<noteq> ''neutral'' \<and>
        speaker (?out ! (i - 1)) \<noteq> dict_get (ms ! i) ''speaker'' ''Unknown'')"
    by (simp add: over_cond_def contains_acceptance_iff)
  have lab: "(label (?out ! i) = ''pressured acceptance'') = over_cond ?prev (ms ! i)"
    unfolding out analyze_one_label using rule_label_not_pressured by simp
  have fired: "explanation (?out ! i) =
      ''Message contains acceptance keywords and was preceded by a manipulative message from ''
      @ speaker (?out ! (i - 1)) @ ''. This suggests pressured acceptance.''"
    if "over_cond ?prev (ms ! i)"
  proof -
    from that cond have "0 < i" by simp
    then have "the ?prev = ?out ! (i - 1)" by simp
    with that show ?thesis
      unfolding out analyze_one_explanation by simp
  qed
  have rest: "label (?out ! i) = fst (fst (analyze_message (dict_get (ms ! i) ''text'' []) g')) \<and>
      explanation (?out ! i) = snd (snd (fst (analyze_message (dict_get (ms ! i) ''text'' []) g')))"
    if "\<not> over_cond ?prev (ms ! i)"
    unfolding out analyze_one_label analyze_one_explanation
    using that analyze_message_label_det [of _ g1 g'] analyze_message_explanation_det [of _ g1 g']
    by simp
  show ?thesis
    using lab fired rest cond ACCEPTANCE_KEYWORDS_def by blast
qed

theorem override_iff_three_conditions_witness:
  "1 < length [Message ''A'' ''you owe me'', Message ''B'' ''okay fine''] \<and>
   label (messages (fst (analyze_chat [Message ''A'' ''you owe me'', Message ''B'' ''okay fine'']
                          (sconst 0))) ! 1) = ''pressured acceptance'' \<and>
   label (messages (fst (analyze_chat [Message ''A'' ''you owe me'', Message ''A'' ''okay fine'']
                          (sconst 0))) ! 1) = ''neutral''"
proof -
  let ?ab = "[Message ''A'' ''you owe me'', Message ''B'' ''okay fine'']"
  let ?aa = "[Message ''A'' ''you owe me'', Message ''A'' ''okay fine'']"
  have len: "1 < length ?ab" "1 < length ?aa"
    by simp_all
  have key: "\<exists>k \<in> set ACCEPTANCE_KEYWORDS. sublist k (norm_text ''okay fine'')"
    using acceptance_okay_fine by (simp add: contains_acceptance_iff)
  have first: "label (messages (fst (analyze_chat ?ab (sconst 0))) ! 0) = ''guilt-tripping''"
    "speaker (messages (fst (analyze_chat ?ab (sconst 0))) ! 0) = ''A''"
    "speaker (messages (fst (analyze_chat ?aa (sconst 0))) ! 0) = ''A''"
    by (simp_all add: analyze_chat_messages analyze_one_label analyze_one_speaker over_cond_def
        label_you_owe_me)
  have "label (messages (fst (analyze_chat ?ab (sconst 0))) ! 1) = ''pressured acceptance''"
    using override_iff_three_conditions [OF len(1), of "sconst 0" "sconst 0"] key first
    by simp
  moreover have "label (messages (fst (analyze_chat ?aa (sconst 0))) ! 1) = ''neutral''"
    using override_iff_three_conditions [OF len(2), of "sconst 0" "sconst 0"] first(3)
    by (simp add: label_okay_fine)
  ultimately show ?thesis
    using len by blast
qed

text \<open>
  C2. For every message sequence the influence score is \<open>round(n / total, 2)\<close>, where
  \<open>n\<close> is the number of messages whose final label is not \<open>neutral\<close> and \<open>total\<close> the
  larger of the number of messages and 1. The quotient is a float: the one nearest to
  the exact ratio, within \<open>2^-54\<close> of it. The score is the whole number of hundredths
  nearest to that float, the even one when the float lies halfway between two. It lies
  between 0 and 1, as a decimal and as the float that stands for it; and the empty
  sequence gives the score 0 with an empty list of analyses.
\<close>

theorem influence_score_is_rounded_ratio:
  "(let n = length (filter (\<lambda>a. label a \<noteq> ''neutral'') (messages (fst (analyze_chat ms g))));
        r = real n / real (max (length ms) 1);
        s = influence_score (fst (analyze_chat ms g))
    in s = round2 (fl r)
       \<and> (\<exists>k :: int. s = of_int k / 100 \<and> \<bar>s - fl r\<bar> \<le> 1 / 200 \<and>
             (\<bar>s - fl r\<bar> = 1 / 200 \<longrightarrow> even k))
       \<and> \<bar>fl r - r\<bar> \<le> 1 / 2 ^ 54
       \<and> 0 \<le> s \<and> s \<le> 1 \<and> 0 \<le> fl s \<and> fl s \<le> 1)
   \<and> fst (analyze_chat [] g) = \<lparr>messages = [], influence_score = 0\<rparr>"
proof -
  define n where "n = length (filter (\<lambda>a. label a \<noteq> ''neutral'') (analyses None g ms))"
  define r where "r = real n / real (max (length ms) 1)"
  define s where "s = influence_score (fst (analyze_chat ms g))"
  have "n \<le> length ms"
    unfolding n_def using length_filter_le [of _ "analyses None g ms"] by (simp add: length_analyses)
  then have "real n \<le> real (max (length ms) 1)"
    by simp
  then have r: "0 \<le> r" "r \<le> 1"
    unfolding r_def by (simp_all add: divide_le_eq_1)
  have s: "s = round2 (fl r)"
    unfolding s_def r_def n_def by (rule analyze_chat_score)
  have near: "\<exists>k :: int. s = of_int k / 100 \<and> \<bar>s - fl r\<bar> \<le> 1 / 200 \<and>
      (\<bar>s - fl r\<bar> = 1 / 200 \<longrightarrow> even k)"
    unfolding s by (rule round2_near)
  have err: "\<bar>fl r - r\<bar> \<le> 1 / 2 ^ 54"
    using r by (rule fl_error_unit)
  have range: "0 \<le> s \<and> s \<le> 1"
    unfolding s using fl_unit [OF r] round2_unit by blast
  then have frange: "0 \<le> fl s \<and> fl s \<le> 1"
    using fl_unit by blast
  have empty: "fst (analyze_chat [] g) = \<lparr>messages = [], influence_score = 0\<rparr>"
    by (simp add: analyze_chat_def round2_def round_half_even_def)
  have "s = round2 (fl r)
      \<and> (\<exists>k :: int. s = of_int k / 100 \<and> \<bar>s - fl r\<bar> \<le> 1 / 200 \<and>
            (\<bar>s - fl r\<bar> = 1 / 200 \<longrightarrow> even k))
      \<and> \<bar>fl r - r\<bar> \<le> 1 / 2 ^ 54
      \<and> 0 \<le> s \<and> s \<le> 1 \<and> 0 \<le> fl s \<and> fl s \<le> 1"
    using s near err range frange by blast
  then show ?thesis
    unfolding Let_def analyze_chat_messages s_def r_def n_def using empty by blast
qed

text \<open>
  One message of forty is not neutral: the exact ratio is 0.025, the float nearest to
  it lies above 0.025, and the score is 0.03.
\<close>

theorem influence_score_is_rounded_ratio_witness:
  "influence_score (fst (analyze_chat
      (Message ''A'' ''you owe me'' # replicate 39 (Message ''A'' ''hi'')) (sconst 0))) = 3 / 100
   \<and> influence_score (fst (analyze_chat [Message ''A'' ''you owe me'', Message ''B'' ''okay fine'']
                           (sconst 0))) = 1
   \<and> fst (analyze_chat [] (sconst 0)) = \<lparr>messages = [], influence_score = 0\<rparr>"
proof -
  let ?ms = "[Message ''A'' ''you owe me'', Message ''B'' ''okay fine'']"
  let ?long = "Message ''A'' ''you owe me'' # replicate 39 (Message ''A'' ''hi'')"
  have n2: "length (filter (\<lambda>a. label a \<noteq> ''neutral'') (messages (fst (analyze_chat ?ms (sconst 0))))) = 2"
    by (simp add: count_by_label labels_scenario)
  have "map label (messages (fst (analyze_chat ?long (sconst 0))))
      = ''guilt-tripping'' # replicate 39 ''neutral''"
    by (simp add: analyze_chat_messages analyze_one_label over_cond_def label_you_owe_me
        labels_replicate_hi)
  then have n1: "length (filter (\<lambda>a. label a \<noteq> ''neutral'')
      (messages (fst (analyze_chat ?long (sconst 0))))) = 1"
    by (simp add: count_by_label)
  have "influence_score (fst (analyze_chat ?long (sconst 0))) = round2 (fl (1 / 40))"
    using influence_score_is_rounded_ratio [of ?long "sconst 0", unfolded Let_def n1] by simp
  then have long: "influence_score (fst (analyze_chat ?long (sconst 0))) = 3 / 100"
    by (simp only: quotient_one_fortieth)
  have "influence_score (fst (analyze_chat ?ms (sconst 0))) = round2 (fl 1)"
    using influence_score_is_rounded_ratio [of ?ms "sconst 0", unfolded Let_def n2] by simp
  then have short: "influence_score (fst (analyze_chat ?ms (sconst 0))) = 1"
    by (simp add: round2_one)
  from long short influence_score_is_rounded_ratio [of "[]" "sconst 0"] show ?thesis
    by blast
qed

text \<open>
  C3. The rule-based classifier goes through the categories in the order guilt-tripping,
  flattery, fear-pressure and through the triggers of a category in the order declared:
  the first pair of that order whose trigger occurs in the normalized text gives the
  label and the trigger named in the explanation; when no trigger occurs the message is
  \<open>neutral\<close>. So a text with triggers of two categories gets the earlier category.
  The normalized text has no upper-case letter, no whitespace at either end, and no
  whitespace but single spaces.
\<close>

theorem first_trigger_in_priority_order:
  "(case List.find (\<lambda>(lab, trig). sublist trig (norm_text tx)) rule_order of
      Some (lab, trig) \<Rightarrow>
        fst (fst (analyze_message tx g)) = lab \<and>
        snd (snd (fst (analyze_message tx g))) =
          ''Phrase '' @ [CHR 0x27] @ trig @ [CHR 0x27] @ '' detected; suggests '' @
          str_replace_char CHR ''-'' CHR '' '' lab @ ''.''
    | None \<Rightarrow>
        fst (fst (analyze_message tx g)) = ''neutral'' \<and>
        snd (snd (fst (analyze_message tx g))) = ''No manipulation keyword detected.'')
   \<and> rule_order =
     [(''guilt-tripping'', ''after all''), (''guilt-tripping'', ''because i''),
      (''guilt-tripping'', ''you owed me''), (''guilt-tripping'', ''you owe me''),
      (''guilt-tripping'', ''you should have''),
      (''flattery'', ''you're the only one''), (''flattery'', ''you're the best''),
      (''flattery'', ''no one else like you''), (''flattery'', ''only you can''),
      (''fear-pressure'', ''if you don't''), (''fear-pressure'', ''or else''),
      (''fear-pressure'', ''you will regret''), (''fear-pressure'', ''you'll regret'')]
   \<and> (\<forall>c \<in> set (norm_text tx). c \<notin> set upper_chars \<and> (isspace c \<longrightarrow> c = CHR '' ''))
   \<and> (norm_text tx = [] \<or>
        (\<not> isspace (hd (norm_text tx)) \<and> \<not> isspace (last (norm_text tx))))
   \<and> \<not> sublist [CHR '' '', CHR '' ''] (norm_text tx)"
proof -
  have "first_rule MANIPULATION_RULES (norm_text tx) =
      List.find (\<lambda>(lab, trig). sublist trig (norm_text tx)) rule_order"
    by (simp add: first_rule_find rule_order_def)
  then have "case List.find (\<lambda>(lab, trig). sublist trig (norm_text tx)) rule_order of
      Some (lab, trig) \<Rightarrow>
        fst (fst (analyze_message tx g)) = lab \<and>
        snd (snd (fst (analyze_message tx g))) =
          ''Phrase '' @ [CHR 0x27] @ trig @ [CHR 0x27] @ '' detected; suggests '' @
          str_replace_char CHR ''-'' CHR '' '' lab @ ''.''
    | None \<Rightarrow>
        fst (fst (analyze_message tx g)) = ''neutral'' \<and>
        snd (snd (fst (analyze_message tx g))) = ''No manipulation keyword detected.''"
    by (simp add: analyze_message_def Let_def split: option.splits prod.splits)
  then show ?thesis
    using rule_order_list norm_text_normal_form [of tx] by blast
qed

theorem first_trigger_in_priority_order_witness:
  "norm_text ''  After  ALL, you're the best '' = ''after all, you're the best''
   \<and> sublist ''after all'' (norm_text ''After all, you're the best'')
   \<and> sublist ''you're the best'' (norm_text ''After all, you're the best'')
   \<and> fst (fst (analyze_message ''After all, you're the best'' (sconst 0))) = ''guilt-tripping''
   \<and> snd (snd (fst (analyze_message ''After all, you're the best'' (sconst 0)))) =
       ''Phrase '' @ [CHR 0x27] @ ''after all'' @ [CHR 0x27] @ '' detected; suggests guilt tripping.''"
proof -
  have n: "norm_text ''  After  ALL, you're the best '' = ''after all, you're the best''"
    by code_simp
  from first_trigger_in_priority_order [of "''After all, you're the best''" "sconst 0"]
  have "fst (fst (analyze_message ''After all, you're the best'' (sconst 0))) = ''guilt-tripping''
      \<and> snd (snd (fst (analyze_message ''After all, you're the best'' (sconst 0)))) =
        ''Phrase '' @ [CHR 0x27] @ ''after all'' @ [CHR 0x27] @ '' detected; suggests guilt tripping.''"
    by (simp add: find_after_all_best str_replace_char_def)
  with n both_triggers show ?thesis
    by blast
qed

text \<open>
  C4. The final label of message \<open>i\<close> is a function of that message and of what the
  final analysis of message \<open>i - 1\<close> shows (its speaker and its final label): two runs,
  on any two sequences and generator states, that agree on these agree on the label,
  whatever the earlier messages were. The label seen is the final one: after a message
  that was itself overridden to \<open>pressured acceptance\<close>, an acceptance from another
  speaker is overridden too.
\<close>

theorem label_depends_on_previous_only:
  assumes "i < length ms"
  shows
    "(\<forall>ms' g' j.
        j < length ms' \<and> ms' ! j = ms ! i \<and>
        ((i = 0 \<and> j = 0) \<or>
         (0 < i \<and> 0 < j \<and>
          label (messages (fst (analyze_chat ms' g')) ! (j - 1)) =
            label (messages (fst (analyze_chat ms g)) ! (i - 1)) \<and>
          speaker (messages (fst (analyze_chat ms' g')) ! (j - 1)) =
            speaker (messages (fst (analyze_chat ms g)) ! (i - 1))))
        \<longrightarrow> label (messages (fst (analyze_chat ms' g')) ! j) =
              label (messages (fst (analyze_chat ms g)) ! i))
     \<and>
     (0 < i \<and>
      label (messages (fst (analyze_chat ms g)) ! (i - 1)) = ''pressured acceptance'' \<and>
      contains_acceptance (norm_text (dict_get (ms ! i) ''text'' [])) \<and>
      speaker (messages (fst (analyze_chat ms g)) ! (i - 1)) \<noteq> dict_get (ms ! i) ''speaker'' ''Unknown''
      \<longrightarrow> label (messages (fst (analyze_chat ms g)) ! i) = ''pressured acceptance'')"
proof -
  let ?out = "messages (fst (analyze_chat ms g))"
  let ?prev = "if i = 0 then None else Some (?out ! (i - 1))"
  obtain g1 where out: "?out ! i = fst (analyze_one ?prev g1 (ms ! i))"
    using nth_analysis [OF assms] by blast
  have two_runs: "label (messages (fst (analyze_chat ms' g')) ! j) = label (?out ! i)"
    if j: "j < length ms'" and m: "ms' ! j = ms ! i"
      and v: "(i = 0 \<and> j = 0) \<or>
         (0 < i \<and> 0 < j \<and>
          label (messages (fst (analyze_chat ms' g')) ! (j - 1)) = label (?out ! (i - 1)) \<and>
          speaker (messages (fst (analyze_chat ms' g')) ! (j - 1)) = speaker (?out ! (i - 1)))"
    for ms' g' j
  proof -
    let ?out' = "messages (fst (analyze_chat ms' g'))"
    let ?prev' = "if j = 0 then None else Some (?out' ! (j - 1))"
    obtain g2 where out': "?out' ! j = fst (analyze_one ?prev' g2 (ms' ! j))"
      using nth_analysis [OF j] by blast
    have "seen ?prev' = seen ?prev"
      using v by (auto simp: seen_def)
    then show ?thesis
      unfolding out out' m by (rule analyze_one_seen(1))
  qed
  have chain: "label (?out ! i) = ''pressured acceptance''"
    if "0 < i" "label (?out ! (i - 1)) = ''pressured acceptance''"
      "contains_acceptance (norm_text (dict_get (ms ! i) ''text'' []))"
      "speaker (?out ! (i - 1)) \<noteq> dict_get (ms ! i) ''speaker'' ''Unknown''"
    unfolding out analyze_one_label using that by (simp add: over_cond_def)
  show ?thesis
    using two_runs chain by blast
qed

theorem label_depends_on_previous_only_witness:
  "2 < length [Message ''A'' ''you owe me'', Message ''B'' ''okay fine'', Message ''A'' ''fine'']
   \<and> fst (fst (analyze_message ''okay fine'' (sconst 0))) = ''neutral''
   \<and> label (messages (fst (analyze_chat
        [Message ''A'' ''you owe me'', Message ''B'' ''okay fine'', Message ''A'' ''fine'']
        (sconst 0))) ! 1) = ''pressured acceptance''
   \<and> label (messages (fst (analyze_chat
        [Message ''A'' ''you owe me'', Message ''B'' ''okay fine'', Message ''A'' ''fine'']
        (sconst 0))) ! 2) = ''pressured acceptance''
   \<and> label (messages (fst (analyze_chat
        [Message ''X'' ''if you don't'', Message ''B'' ''okay fine'', Message ''A'' ''fine'']
        (sconst 1))) ! 2) =
      label (messages (fst (analyze_chat
        [Message ''A'' ''you owe me'', Message ''B'' ''okay fine'', Message ''A'' ''fine'']
        (sconst 0))) ! 2)"
proof -
  let ?ms = "[Message ''A'' ''you owe me'', Message ''B'' ''okay fine'', Message ''A'' ''fine'']"
  let ?ms' = "[Message ''X'' ''if you don't'', Message ''B'' ''okay fine'', Message ''A'' ''fine'']"
  let ?out = "messages (fst (analyze_chat ?ms (sconst 0)))"
  let ?out' = "messages (fst (analyze_chat ?ms' (sconst 1)))"
  have len: "2 < length ?ms"
    by simp
  have l1: "label (?out ! 1) = ''pressured acceptance''" "label (?out' ! 1) = ''pressured acceptance''"
    using labels_three [of "sconst 0"] labels_three_other [of "sconst 1"]
    by (simp_all add: list_eq_iff_nth_eq)
  have s1: "speaker (?out ! 1) = ''B''" "speaker (?out' ! 1) = ''B''"
    by (simp_all add: analyze_chat_messages analyze_one_speaker)
  note inst = label_depends_on_previous_only [OF len, of "sconst 0"]
  have pre: "0 < (2::nat) \<and> label (?out ! (2 - 1)) = ''pressured acceptance'' \<and>
      contains_acceptance (norm_text (dict_get (?ms ! 2) ''text'' [])) \<and>
      speaker (?out ! (2 - 1)) \<noteq> dict_get (?ms ! 2) ''speaker'' ''Unknown''"
    using l1(1) s1(1) acceptance_fine by simp
  have chain: "label (?out ! 2) = ''pressured acceptance''"
    using inst [THEN conjunct2] pre by (rule mp)
  have same: "2 < length ?ms' \<and> ?ms' ! 2 = ?ms ! 2 \<and>
      ((2 = (0::nat) \<and> 2 = (0::nat)) \<or>
       (0 < (2::nat) \<and> 0 < (2::nat) \<and>
        label (?out' ! (2 - 1)) = label (?out ! (2 - 1)) \<and>
        speaker (?out' ! (2 - 1)) = speaker (?out ! (2 - 1))))"
    using l1 s1 by simp
  have "label (?out' ! 2) = label (?out ! 2)"
    using inst [THEN conjunct1] same by blast
  then show ?thesis
    using len l1(1) chain label_okay_fine [of "sconst 0"] by blast
qed

text \<open>
  C5. The segmenter is a total function: it returns a list for every string. It yields,
  in the order of the input, one message for each line that is not blank after
  trimming. When the trimmed line reads as the speaker pattern (a token of word
  characters, optional whitespace, a colon, optional whitespace, then a non-empty
  remainder) the message has the token as speaker and the remainder as text, not
  trimmed again; otherwise the speaker is \<open>Unknown\<close> and the text is the whole
  trimmed line. The lines are what lies between the line boundaries: together they are
  the input without its boundary characters, and none contains one.
\<close>

theorem segmenter_one_message_per_line:
  "(let lines = filter (\<lambda>l. l \<noteq> []) (map str_strip (splitlines s)) in
      length (preprocess_chat s) = length lines \<and>
      (\<forall>i < length lines.
         (\<forall>tok rest. spec_speaker_line (lines ! i) tok rest \<longrightarrow>
                     preprocess_chat s ! i = Message tok rest) \<and>
         ((\<forall>tok rest. \<not> spec_speaker_line (lines ! i) tok rest) \<longrightarrow>
            preprocess_chat s ! i = Message ''Unknown'' (lines ! i))))
   \<and> concat (splitlines s) = filter (\<lambda>c. \<not> islinebreak c) s
   \<and> (\<forall>l \<in> set (splitlines s). \<forall>c \<in> set l. \<not> islinebreak c)"
proof -
  let ?lines = "filter (\<lambda>l. l \<noteq> []) (map str_strip (splitlines s))"
  let ?msg = "\<lambda>line. case speaker_pattern_match line of
                       Some (sp, tx) \<Rightarrow> Message sp tx
                     | None \<Rightarrow> Message ''Unknown'' line"
  have pc: "preprocess_chat s = map ?msg ?lines"
    by (simp add: preprocess_chat_def preprocess_loop_map)
  have per_line: "(\<forall>tok rest. spec_speaker_line (?lines ! i) tok rest \<longrightarrow>
                     preprocess_chat s ! i = Message tok rest) \<and>
         ((\<forall>tok rest. \<not> spec_speaker_line (?lines ! i) tok rest) \<longrightarrow>
            preprocess_chat s ! i = Message ''Unknown'' (?lines ! i))"
    if i: "i < length ?lines" for i
  proof -
    have mem: "?lines ! i \<in> set ?lines"
      using i by (rule nth_mem)
    note iff = match_trimmed_iff [OF chat_line_trimmed [OF mem]]
    have nth: "preprocess_chat s ! i = ?msg (?lines ! i)"
      unfolding pc using i by (rule nth_map)
    have "preprocess_chat s ! i = Message tok rest"
      if "spec_speaker_line (?lines ! i) tok rest" for tok rest
      using that iff [of tok rest] nth by simp
    moreover have "preprocess_chat s ! i = Message ''Unknown'' (?lines ! i)"
      if "\<forall>tok rest. \<not> spec_speaker_line (?lines ! i) tok rest"
    proof (cases "speaker_pattern_match (?lines ! i)")
      case None
      with nth show ?thesis by simp
    next
      case (Some p)
      with that iff [of "fst p" "snd p"] show ?thesis by simp
    qed
    ultimately show ?thesis
      by blast
  qed
  have "length (preprocess_chat s) = length ?lines"
    unfolding pc by simp
  with per_line splitlines_concat [of s] splitlines_no_break [of _ s] show ?thesis
    unfolding Let_def by blast
qed

theorem segmenter_one_message_per_line_witness:
  "length (preprocess_chat (''A: you owe me'' @ [CHR 0x0A, CHR 0x0A] @ ''  hello there ''
                            @ [CHR 0x0A] @ ''B :ok'')) = 3
   \<and> preprocess_chat (''A: you owe me'' @ [CHR 0x0A, CHR 0x0A] @ ''  hello there ''
                      @ [CHR 0x0A] @ ''B :ok'') ! 0 = Message ''A'' ''you owe me''
   \<and> preprocess_chat (''A: you owe me'' @ [CHR 0x0A, CHR 0x0A] @ ''  hello there ''
                      @ [CHR 0x0A] @ ''B :ok'') ! 1 = Message ''Unknown'' ''hello there''
   \<and> preprocess_chat (''A: you owe me'' @ [CHR 0x0A, CHR 0x0A] @ ''  hello there ''
                      @ [CHR 0x0A] @ ''B :ok'') ! 2 = Message ''B'' ''ok''"
proof -
  let ?s = "''A: you owe me'' @ [CHR 0x0A, CHR 0x0A] @ ''  hello there '' @ [CHR 0x0A] @ ''B :ok''"
  note inst = segmenter_one_message_per_line [of ?s, unfolded Let_def example_lines,
      THEN conjunct1]
  have len: "length (preprocess_chat ?s) = 3"
    using inst by simp
  have i: "(0::nat) < length [''A: you owe me'', ''hello there'', ''B :ok'']"
    "(1::nat) < length [''A: you owe me'', ''hello there'', ''B :ok'']"
    "(2::nat) < length [''A: you owe me'', ''hello there'', ''B :ok'']"
    by simp_all
  have m0: "preprocess_chat ?s ! 0 = Message ''A'' ''you owe me''"
    using inst [THEN conjunct2, rule_format, OF i(1), THEN conjunct1, rule_format,
        of "''A''" "''you owe me''"] example_speaker_lines(1)
    by simp
  have m1: "preprocess_chat ?s ! 1 = Message ''Unknown'' ''hello there''"
    using inst [THEN conjunct2, rule_format, OF i(2), THEN conjunct2] example_no_speaker_line
    by simp
  have m2: "preprocess_chat ?s ! 2 = Message ''B'' ''ok''"
    using inst [THEN conjunct2, rule_format, OF i(3), THEN conjunct1, rule_format,
        of "''B''" "''ok''"] example_speaker_lines(2)
    by simp
  from len m0 m1 m2 show ?thesis
    by blast
qed

text \<open>
  C6. Every confidence of an analysis result lies in [0.70, 0.97], as a decimal and as
  the float that stands for it. The confidence of the message at position \<open>i\<close> is the
  rounded draw of that position: with \<open>p\<close> the number \<open>i\<close> of earlier messages plus the
  number of earlier overrides, a rule-based result (a trigger match or the neutral
  fallback) carries \<open>round(uniform(0.7, 0.95), 2)\<close> of draw \<open>p\<close>, which lies in
  [0.70, 0.95], and an overridden one carries \<open>round(uniform(0.75, 0.97), 2)\<close> of draw
  \<open>p + 1\<close>, which lies in [0.75, 0.97], draw \<open>p\<close> having gone to the rule-based result
  that the override replaces. \<open>uniform(lo, hi)\<close> is \<open>lo + (hi - lo) * r\<close> in float
  arithmetic for the draw \<open>r\<close> of the generator, a 53-bit numerator over \<open>2^53\<close>, so
  \<open>0 \<le> r < 1\<close>; before rounding it lies between the floats \<open>lo\<close> and \<open>hi\<close> for the
  two pairs of bounds of the analyzer. A rounded value is the whole number of hundredths
  nearest to the float rounded, the even one when the float lies halfway between two.
\<close>

theorem confidence_in_range:
  "(\<forall>i < length ms.
      let out = messages (fst (analyze_chat ms g));
          p = i + length (filter (\<lambda>a. label a = ''pressured acceptance'') (take i out));
          c = confidence (out ! i)
      in 7 / 10 \<le> c \<and> c \<le> 97 / 100 \<and> fl 0.7 \<le> fl c \<and> fl c \<le> fl 0.97 \<and>
         (if label (out ! i) = ''pressured acceptance''
          then c = round2 (fst (uniform (fl 0.75) (fl 0.97) (sdrop (p + 1) g))) \<and> 75 / 100 \<le> c
          else c = round2 (fst (uniform (fl 0.7) (fl 0.95) (sdrop p g))) \<and> c \<le> 95 / 100))
   \<and> fst (snd (fst (analyze_message tx g))) = round2 (fst (uniform (fl 0.7) (fl 0.95) g))
   \<and> 7 / 10 \<le> fst (snd (fst (analyze_message tx g)))
   \<and> fst (snd (fst (analyze_message tx g))) \<le> 95 / 100
   \<and> fl 0.7 \<le> fst (uniform (fl 0.7) (fl 0.95) g)
   \<and> fst (uniform (fl 0.7) (fl 0.95) g) \<le> fl 0.95
   \<and> fl 0.75 \<le> fst (uniform (fl 0.75) (fl 0.97) g)
   \<and> fst (uniform (fl 0.75) (fl 0.97) g) \<le> fl 0.97
   \<and> fst (uniform lo hi g) = fl (lo + fl (fl (hi - lo) * fst (random g)))
   \<and> fst (random g) = real (unat (shd g)) / 2 ^ 53
   \<and> 0 \<le> fst (random g) \<and> fst (random g) < 1
   \<and> (\<exists>k :: int. round2 x = of_int k / 100 \<and> \<bar>round2 x - x\<bar> \<le> 1 / 200 \<and>
         (\<bar>round2 x - x\<bar> = 1 / 200 \<longrightarrow> even k))"
proof -
  have chat: "7 / 10 \<le> c \<and> c \<le> 97 / 100 \<and> fl 0.7 \<le> fl c \<and> fl c \<le> fl 0.97 \<and>
      (if label (out ! i) = ''pressured acceptance''
       then c = round2 (fst (uniform (fl 0.75) (fl 0.97) (sdrop (p + 1) g))) \<and> 75 / 100 \<le> c
       else c = round2 (fst (uniform (fl 0.7) (fl 0.95) (sdrop p g))) \<and> c \<le> 95 / 100)"
    if i: "i < length ms"
      and out: "out = messages (fst (analyze_chat ms g))"
      and p: "p = i + length (filter (\<lambda>a. label a = ''pressured acceptance'') (take i out))"
      and c: "c = confidence (out ! i)"
    for i out p c
  proof -
    have e: "c = (if label (out ! i) = ''pressured acceptance''
        then override_confidence (sdrop (p + 1) g) else rule_confidence (sdrop p g))"
      unfolding c p out analyze_chat_messages by (rule analyses_nth_confidence [OF i])
    show ?thesis
    proof (cases "label (out ! i) = ''pressured acceptance''")
      case True
      with e have v: "c = override_confidence (sdrop (p + 1) g)"
        by simp
      then have r: "75 / 100 \<le> c" "c \<le> 97 / 100"
        using conf_override_range [of "sdrop (p + 1) g"] by simp_all
      then have "fl 0.7 \<le> fl c" "fl c \<le> fl 0.97"
        by (simp_all add: fl_mono)
      with True v r show ?thesis
        by (simp add: override_confidence_def)
    next
      case False
      with e have v: "c = rule_confidence (sdrop p g)"
        by simp
      then have r: "7 / 10 \<le> c" "c \<le> 95 / 100"
        using conf_rule_range [of "sdrop p g"] by simp_all
      then have "fl 0.7 \<le> fl c" "fl c \<le> fl 0.97"
        by (simp_all add: fl_mono)
      with False v r show ?thesis
        by (simp add: rule_confidence_def)
    qed
  qed
  have msg: "fst (snd (fst (analyze_message tx g))) = round2 (fst (uniform (fl 0.7) (fl 0.95) g))"
    unfolding analyze_message_confidence rule_confidence_def ..
  have rule: "7 / 10 \<le> fst (snd (fst (analyze_message tx g)))"
    "fst (snd (fst (analyze_message tx g))) \<le> 95 / 100"
    unfolding analyze_message_confidence using conf_rule_range [of g] by blast+
  have rnd: "fst (random g) = real (unat (shd g)) / 2 ^ 53"
    by (simp add: random_def)
  from chat msg rule rule_draw_range [of g] override_draw_range [of g] uniform_value [of lo hi g]
    rnd random_range [of g] round2_near [of x]
  show ?thesis
    unfolding Let_def by blast
qed

text \<open>
  Three draws whose numerators are 180143985094820, 0 and 204709073971385: the first
  message gets the first, 0.70; the second draw goes to the rule-based result of the
  second message, which the override replaces by the third, 0.76. In exact arithmetic
  the two would round to 0.71 and 0.75.
\<close>

theorem confidence_in_range_witness:
  "map label (messages (fst (analyze_chat [Message ''A'' ''you owe me'', Message ''B'' ''okay fine'']
      (180143985094820 ## 0 ## 204709073971385 ## sconst 0))))
     = [''guilt-tripping'', ''pressured acceptance'']
   \<and> confidence (messages (fst (analyze_chat [Message ''A'' ''you owe me'', Message ''B'' ''okay fine'']
        (180143985094820 ## 0 ## 204709073971385 ## sconst 0))) ! 0) = 7 / 10
   \<and> confidence (messages (fst (analyze_chat [Message ''A'' ''you owe me'', Message ''B'' ''okay fine'']
        (180143985094820 ## 0 ## 204709073971385 ## sconst 0))) ! 1) = 76 / 100
   \<and> round2 (7 / 10 + (95 / 100 - 7 / 10) * (180143985094820 / 2 ^ 53)) = 71 / 100
   \<and> round2 (75 / 100 + (97 / 100 - 75 / 100) * (204709073971385 / 2 ^ 53)) = 75 / 100"
proof -
  let ?ms = "[Message ''A'' ''you owe me'', Message ''B'' ''okay fine'']"
  let ?g = "180143985094820 ## 0 ## 204709073971385 ## sconst (0 :: 53 word)"
  let ?out = "messages (fst (analyze_chat ?ms ?g))"
  note inst = confidence_in_range [of ?ms ?g "''you owe me''" 0 0 0, THEN conjunct1,
      unfolded Let_def, folded rule_confidence_def override_confidence_def, rule_format]
  have l0: "label (?out ! 0) = ''guilt-tripping''"
    and l1: "label (?out ! 1) = ''pressured acceptance''"
    using labels_scenario [of ?g] by (simp_all add: list_eq_iff_nth_eq)
  have p1: "length (filter (\<lambda>a. label a = ''pressured acceptance'') (take 1 ?out)) = 0"
    by (simp add: chat_ev)
  have "confidence (?out ! 0) = rule_confidence (sdrop 0 ?g)"
    using inst [of 0] l0 by simp
  then have c0: "confidence (?out ! 0) = 7 / 10"
    by (simp add: rule_confidence_at_tie)
  have "confidence (?out ! 1) = override_confidence (sdrop (1 + 0 + 1) ?g)"
    using inst [of 1] l1 unfolding p1 by simp
  then have c1: "confidence (?out ! 1) = 76 / 100"
    by (simp add: numeral_2_eq_2 override_confidence_at_tie)
  have x: "round2 (7 / 10 + (95 / 100 - 7 / 10) * (180143985094820 / 2 ^ 53)) = 71 / 100"
    "round2 (75 / 100 + (97 / 100 - 75 / 100) * (204709073971385 / 2 ^ 53)) = 75 / 100"
    by (simp_all add: round2_def round_half_even_def)
  from labels_scenario [of ?g] c0 c1 x show ?thesis
    by blast
qed

text \<open>
  C7. Two runs of the analyzer on the same message sequence, from any two generator
  states, give the same labels, explanations, speakers and texts, message by message,
  and the same influence score; only confidences can differ, and each stays in
  [0.70, 0.97].
\<close>

theorem rerun_same_labels:
  "map label (messages (fst (analyze_chat ms g1))) = map label (messages (fst (analyze_chat ms g2)))
   \<and> map explanation (messages (fst (analyze_chat ms g1))) =
       map explanation (messages (fst (analyze_chat ms g2)))
   \<and> map speaker (messages (fst (analyze_chat ms g1))) =
       map speaker (messages (fst (analyze_chat ms g2)))
   \<and> map msg_text (messages (fst (analyze_chat ms g1))) =
       map msg_text (messages (fst (analyze_chat ms g2)))
   \<and> influence_score (fst (analyze_chat ms g1)) = influence_score (fst (analyze_chat ms g2))
   \<and> list_all (\<lambda>a. 7 / 10 \<le> confidence a \<and> confidence a \<le> 97 / 100)
        (messages (fst (analyze_chat ms g1)) @ messages (fst (analyze_chat ms g2)))"
proof -
  have same: "map label (analyses None g1 ms) = map label (analyses None g2 ms) \<and>
      map explanation (analyses None g1 ms) = map explanation (analyses None g2 ms)"
    by (rule analyses_seen) simp
  then have score: "influence_score (fst (analyze_chat ms g1)) = influence_score (fst (analyze_chat ms g2))"
    by (simp add: analyze_chat_score count_by_label)
  have conf: "7 / 10 \<le> confidence a \<and> confidence a \<le> 97 / 100"
    if "a \<in> set (analyses None g ms)" for a g
  proof -
    from analyses_confidence [OF that] show ?thesis
    proof (elim disjE conjE exE)
      fix g'
      assume "confidence a = override_confidence g'"
      then show ?thesis
        using conf_override_range [of g'] by simp
    next
      fix g'
      assume "confidence a = rule_confidence g'"
      then show ?thesis
        using conf_rule_range [of g'] by simp
    qed
  qed
  then have "list_all (\<lambda>a. 7 / 10 \<le> confidence a \<and> confidence a \<le> 97 / 100)
      (analyses None g1 ms @ analyses None g2 ms)"
    by (auto simp: list_all_iff)
  then show ?thesis
    using same score analyses_fields [of None g1 ms] analyses_fields [of None g2 ms]
    by (simp add: analyze_chat_messages)
qed

theorem rerun_same_labels_witness:
  "map label (messages (fst (analyze_chat [Message ''A'' ''you owe me'', Message ''B'' ''okay fine'']
                               (sconst 4503599627370496))))
     = [''guilt-tripping'', ''pressured acceptance'']
   \<and> confidence (messages (fst (analyze_chat
        [Message ''A'' ''you owe me'', Message ''B'' ''okay fine''] (sconst 0))) ! 0) = 7 / 10
   \<and> confidence (messages (fst (analyze_chat
        [Message ''A'' ''you owe me'', Message ''B'' ''okay fine''] (sconst 4503599627370496))) ! 0)
       = 82 / 100"
proof -
  let ?ms = "[Message ''A'' ''you owe me'', Message ''B'' ''okay fine'']"
  have "map label (messages (fst (analyze_chat ?ms (sconst 4503599627370496))))
      = map label (messages (fst (analyze_chat ?ms (sconst 0))))"
    using rerun_same_labels [of ?ms "sconst 4503599627370496" "sconst 0"] by blast
  moreover have "confidence (messages (fst (analyze_chat ?ms (sconst 0))) ! 0) = 7 / 10"
    by (simp add: analyze_chat_messages analyze_one_confidence over_cond_def
        rule_confidence_at_zero)
  moreover have "confidence (messages (fst (analyze_chat ?ms (sconst 4503599627370496))) ! 0) = 82 / 100"
    by (simp add: analyze_chat_messages analyze_one_confidence over_cond_def
        rule_confidence_at_half)
  ultimately show ?thesis
    by (simp add: labels_scenario)
qed

text \<open>
  C8, as the code has it. The draws are the only source of non-determinism: the status,
  and the speakers, texts, labels, explanations and influence score of a response, are
  the same from every generator state. The draws are not seeded per call: a call takes
  them from the generator state the process is in and leaves the generator advanced by
  one draw for each message and one more for each pressured-acceptance override (a
  refused request draws nothing), so the next call starts where this one stopped.
\<close>

theorem draws_come_from_the_process_generator:
  "map_sum id
     (\<lambda>r. (map (\<lambda>a. (speaker a, msg_text a, label a, explanation a)) (messages r),
            influence_score r))
     (fst (analyze chat g))
   = map_sum id
       (\<lambda>r. (map (\<lambda>a. (speaker a, msg_text a, label a, explanation a)) (messages r),
              influence_score r))
       (fst (analyze chat g'))
   \<and> snd (analyze chat g) =
       sdrop (case fst (analyze chat g) of
                Inl e \<Rightarrow> 0
              | Inr r \<Rightarrow>
                  length (messages r)
                  + length (filter (\<lambda>a. label a = ''pressured acceptance'') (messages r)))
         g"
proof (cases "chat = [] \<or> str_strip chat = []")
  case True
  then show ?thesis
    by (simp add: analyze_rejects)
next
  case False
  have len: "length (messages (fst (analyze_chat (preprocess_chat chat) g)))
      = length (preprocess_chat chat)"
    by (simp add: analyze_chat_messages length_analyses)
  show ?thesis
    using analyze_chat_deterministic_part [of "preprocess_chat chat" g g']
      analyze_chat_state [of "preprocess_chat chat" g] len
    by (simp add: analyze_accepts [OF False])
qed

theorem draws_come_from_the_process_generator_witness:
  "snd (analyze (''A: hi'' @ [CHR 0x0A] @ ''B: yo'') (0 ## 0 ## sconst 4503599627370496))
     = sconst 4503599627370496
   \<and> snd (analyze [] (0 ## 0 ## sconst 4503599627370496)) = 0 ## 0 ## sconst 4503599627370496"
proof -
  let ?g0 = "0 ## 0 ## sconst (4503599627370496 :: 53 word)"
  let ?c = "''A: hi'' @ [CHR 0x0A] @ ''B: yo''"
  have ok: "\<not> (?c = [] \<or> str_strip ?c = [])"
    unfolding example_hi_yo(2) by simp
  have r: "fst (analyze ?c ?g0) = Inr (fst (analyze_chat [Message ''A'' ''hi'', Message ''B'' ''yo''] ?g0))"
    unfolding analyze_accepts [OF ok] preprocess_hi_yo by simp
  have n: "length (messages (fst (analyze_chat [Message ''A'' ''hi'', Message ''B'' ''yo''] ?g0)))
      + length (filter (\<lambda>a. label a = ''pressured acceptance'')
          (messages (fst (analyze_chat [Message ''A'' ''hi'', Message ''B'' ''yo''] ?g0)))) = 2"
    by (simp add: count_pressured labels_hi_yo) (simp add: analyze_chat_messages length_analyses)
  have e: "fst (analyze [] ?g0) = Inl (HTTPException 400 ''Empty chat text provided.'')"
    by (simp add: analyze_rejects)
  have "snd (analyze ?c ?g0) = sdrop 2 ?g0"
    using draws_come_from_the_process_generator [of ?c ?g0 ?g0] unfolding r using n by simp
  moreover have "snd (analyze [] ?g0) = ?g0"
    using draws_come_from_the_process_generator [of "[]" ?g0 ?g0] unfolding e by simp
  ultimately show ?thesis
    by (simp add: numeral_2_eq_2)
qed

text \<open>
  C8 as stated says that each analyze call is seeded on its own and that no generator
  state is shared between requests. On the code the same request gets the confidence
  0.70 after a one-message request and 0.82 after a two-message request, served from
  the same initial generator state: the response depends on what was served before.
\<close>

theorem per_call_seeding_counterexample:
  "map confidence (messages (projr (fst
      (analyze ''A: hi'' (snd (analyze ''A: hi'' (0 ## 0 ## sconst 4503599627370496)))))))
     = [7 / 10]
   \<and> map confidence (messages (projr (fst
      (analyze ''A: hi''
         (snd (analyze (''A: hi'' @ [CHR 0x0A] @ ''B: yo'') (0 ## 0 ## sconst 4503599627370496)))))))
     = [82 / 100]
   \<and> fst (analyze ''A: hi'' (snd (analyze ''A: hi'' (0 ## 0 ## sconst 4503599627370496))))
     \<noteq> fst (analyze ''A: hi''
         (snd (analyze (''A: hi'' @ [CHR 0x0A] @ ''B: yo'') (0 ## 0 ## sconst 4503599627370496))))"
proof -
  let ?g0 = "0 ## 0 ## sconst (4503599627370496 :: 53 word)"
  let ?r1 = "fst (analyze ''A: hi'' (snd (analyze ''A: hi'' ?g0)))"
  let ?r2 = "fst (analyze ''A: hi'' (snd (analyze (''A: hi'' @ [CHR 0x0A] @ ''B: yo'') ?g0)))"
  have c1: "map confidence (messages (projr ?r1)) = [7 / 10]"
    by (simp add: state_after_hi confidence_hi rule_confidence_at_zero)
  have c2: "map confidence (messages (projr ?r2)) = [82 / 100]"
    unfolding state_after_hi_yo
    by (simp add: confidence_hi rule_confidence_at_half)
  have "?r1 \<noteq> ?r2"
  proof
    assume "?r1 = ?r2"
    then have "map confidence (messages (projr ?r1)) = map confidence (messages (projr ?r2))"
      by simp
    with c1 c2 show False
      by simp
  qed
  with c1 c2 show ?thesis
    by blast
qed

text \<open>
  C9. A line whose trimmed form is a speaker token followed at once by a colon, with
  nothing after it, does not match the pattern: it becomes a message of the speaker
  \<open>Unknown\<close> whose text is the trimmed line with its colon, not a message of that
  speaker with an empty text.
\<close>

theorem bare_speaker_label_is_unknown:
  assumes "tok \<noteq> []" "list_all isword tok" "str_strip raw = tok @ '':''"
  shows "speaker_pattern_match (str_strip raw) = None
     \<and> preprocess_loop (raw # lines) acc =
         preprocess_loop lines (acc @ [Message ''Unknown'' (tok @ '':'')])
     \<and> ((\<forall>c \<in> set raw. \<not> islinebreak c) \<longrightarrow>
          preprocess_chat raw = [Message ''Unknown'' (tok @ '':'')])
     \<and> Message ''Unknown'' (tok @ '':'') \<noteq> Message tok []"
proof -
  have "\<not> isspace (hd tok)"
    using assms(1,2) isword_not_isspace [of "hd tok"] by (cases tok) simp_all
  then have s1: "dropWhile isspace (tok @ '':'') = tok @ '':''"
    using assms(1) by (cases tok) simp_all
  have t: "takeWhile isword (tok @ '':'') = tok" and d: "dropWhile isword (tok @ '':'') = '':''"
    using span_append [OF assms(2), of "'':''"] by simp_all
  have none: "speaker_pattern_match (tok @ '':'') = None"
    unfolding speaker_pattern_match_def Let_def s1 t d using assms(1) by simp
  have step: "preprocess_loop (raw # ls) a =
      preprocess_loop ls (a @ [Message ''Unknown'' (tok @ '':'')])" for ls a
    using none by (simp add: assms(3) Let_def)
  have single: "preprocess_chat raw = [Message ''Unknown'' (tok @ '':'')]"
    if "\<forall>c \<in> set raw. \<not> islinebreak c"
  proof -
    have "raw \<noteq> []"
      using assms(3) by (auto simp: str_strip_def)
    with that have "splitlines raw = [raw]"
      by (rule splitlines_single)
    then show ?thesis
      using step [of "[]" "[]"] by (simp add: preprocess_chat_def)
  qed
  have "Message ''Unknown'' (tok @ '':'') ''text'' \<noteq> Message tok [] ''text''"
    by (simp add: Message_def)
  then have "Message ''Unknown'' (tok @ '':'') \<noteq> Message tok []"
    by metis
  with none step [of lines acc] single show ?thesis
    unfolding assms(3) by blast
qed

theorem bare_speaker_label_is_unknown_witness:
  "''Alice'' \<noteq> [] \<and> list_all isword ''Alice'' \<and> str_strip ''  Alice:  '' = ''Alice'' @ '':''
   \<and> speaker_pattern_match (str_strip ''  Alice:  '') = None
   \<and> preprocess_chat ''  Alice:  '' = [Message ''Unknown'' ''Alice:'']"
proof -
  have ne: "''Alice'' \<noteq> []"
    by simp
  have nb: "\<forall>c \<in> set ''  Alice:  ''. \<not> islinebreak c"
    using example_bare_label(3) by (simp only: list_all_iff)
  from bare_speaker_label_is_unknown [OF ne example_bare_label(1,2), of "[]" "[]"] nb
  have "speaker_pattern_match (str_strip ''  Alice:  '') = None"
    and "preprocess_chat ''  Alice:  '' = [Message ''Unknown'' (''Alice'' @ '':'')]"
    by blast+
  then show ?thesis
    using ne example_bare_label(1,2) by simp
qed

text \<open>
  C10. \<open>analyze_chat\<close> returns one analysis per input message, in the same order, whose
  speaker and text are those the message has (the defaults \<open>Unknown\<close> and the empty
  text standing for a missing key); for messages built by the segmenter these are the
  speaker and the text it stored.
\<close>

theorem analysis_per_message_copies_fields:
  "length (messages (fst (analyze_chat ms g))) = length ms
   \<and> map speaker (messages (fst (analyze_chat ms g))) = map (\<lambda>m. dict_get m ''speaker'' ''Unknown'') ms
   \<and> map msg_text (messages (fst (analyze_chat ms g))) = map (\<lambda>m. dict_get m ''text'' []) ms
   \<and> map (\<lambda>a. (speaker a, msg_text a))
        (messages (fst (analyze_chat (map (\<lambda>(sp, tx). Message sp tx) pairs) g))) = pairs"
proof -
  have "map (\<lambda>a. (speaker a, msg_text a)) (analyses None g (map (\<lambda>(sp, tx). Message sp tx) pairs)) = pairs"
  proof -
    let ?ms = "map (\<lambda>(sp, tx). Message sp tx) pairs"
    have "map (\<lambda>a. (speaker a, msg_text a)) xs = zip (map speaker xs) (map msg_text xs)" for xs
      by (induction xs) simp_all
    then have "map (\<lambda>a. (speaker a, msg_text a)) (analyses None g ?ms) =
        zip (map speaker (analyses None g ?ms)) (map msg_text (analyses None g ?ms))"
      by blast
    also have "\<dots> = zip (map fst pairs) (map snd pairs)"
      by (simp add: analyses_fields comp_def case_prod_beta)
    also have "\<dots> = pairs"
      by (simp add: zip_map_fst_snd)
    finally show ?thesis .
  qed
  then show ?thesis
    using analyses_fields [of None g ms] by (simp add: analyze_chat_messages length_analyses)
qed

theorem analysis_per_message_copies_fields_witness:
  "length (messages (fst (analyze_chat [Message ''A'' ''you owe me'', Message ''B'' ''okay fine'']
                            (sconst 0)))) = 2
   \<and> map speaker (messages (fst (analyze_chat
        [Message ''A'' ''you owe me'', Message ''B'' ''okay fine''] (sconst 0)))) = [''A'', ''B'']
   \<and> map msg_text (messages (fst (analyze_chat
        [Message ''A'' ''you owe me'', Message ''B'' ''okay fine''] (sconst 0))))
       = [''you owe me'', ''okay fine'']
   \<and> map speaker (messages (fst (analyze_chat [Map.empty] (sconst 0)))) = [''Unknown'']"
proof -
  have "dict_get Map.empty ''speaker'' ''Unknown'' = ''Unknown''"
    by (simp add: dict_get_def)
  then show ?thesis
    using analysis_per_message_copies_fields
            [of "[Message ''A'' ''you owe me'', Message ''B'' ''okay fine'']" "sconst 0" "[]"]
          analysis_per_message_copies_fields [of "[Map.empty]" "sconst 0" "[]"]
    by simp
qed

end
